theory Spec2Isabelle
  imports Complex_Main "HOL-Library.Sublist"
begin

section \<open>Python errors and numpy arrays\<close>

text \<open>
  The replay buffers of \<^verbatim>\<open>rlkit/data_management/obs_dict_replay_buffer.py\<close> keep
  their data in two-dimensional numpy arrays of \<^verbatim>\<open>max_size\<close> rows. Every raise of the
  source is a value of \<open>py_error\<close>.
\<close>

datatype py_error =
  AssertionError | ValueError | IndexError | TypeError | KeyError | AttributeError
  | ZeroDivisionError | NotImplementedError | EOFError | UnboundLocalError

text \<open>
  The element types the buffers meet: \<^verbatim>\<open>np.zeros\<close> makes \<^verbatim>\<open>float64\<close> arrays, the
  constructor asks for \<^verbatim>\<open>float32\<close> and \<^verbatim>\<open>uint8\<close>, a discrete action is an integer.
  \<open>promote\<close> is the element type \<^verbatim>\<open>np.asarray\<close> gives a list of vectors of two types.
\<close>

datatype dtype = Float64 | Float32 | UInt8 | Int64

definition promote :: "dtype \<Rightarrow> dtype \<Rightarrow> dtype" where
  "promote a b =
     (if a = b then a
      else if a = Float64 \<or> b = Float64 then Float64
      else if a = Float32 \<or> b = Float32 then (if a = Int64 \<or> b = Int64 then Float64 else Float32)
      else Int64)"

definition is_integer :: "dtype \<Rightarrow> bool" where
  "is_integer dt = (dt = UInt8 \<or> dt = Int64)"

text \<open>
  An entry of an array is a value of a type variable \<open>'x\<close>. What numpy does inside an
  entry is a parameter of the model: the conversion from one element type to another (at a
  store into an array, or in \<^verbatim>\<open>np.asarray\<close>), the entries 0 and 1 of \<^verbatim>\<open>np.zeros\<close> and
  \<^verbatim>\<open>np.eye\<close>, the integer an entry used as an index stands for, and the two pixel
  conversions \<^verbatim>\<open>np.uint8(image * 255.0)\<close> and \<^verbatim>\<open>np.float64(image) / 255.0\<close>.
\<close>

record 'x scalar_ops =
  cast :: "dtype \<Rightarrow> dtype \<Rightarrow> 'x \<Rightarrow> 'x"
  zero_entry :: 'x
  one_entry :: 'x
  to_index :: "'x \<Rightarrow> int"
  unnormalize_entry :: "dtype \<Rightarrow> 'x \<Rightarrow> 'x"
  normalize_entry :: "'x \<Rightarrow> 'x"

text \<open>
  A two-dimensional array: its element type, the length of its second axis and its rows.
  A vector (an action, one entry of an observation dictionary) is its element type and its
  entries; a value of more dimensions counts as the vector of its entries, which is what
  \<^verbatim>\<open>reshape((n, -1))\<close> makes of it.
\<close>

record 'x ndarray =
  nd_dtype :: dtype
  nd_width :: nat
  nd_rows :: "'x list list"

type_synonym 'x tvec = "dtype \<times> 'x list"

text \<open>
  Reading \<^verbatim>\<open>a[lo:hi, :]\<close> with bounds that are not negative: numpy clips both bounds to
  the number of rows.
\<close>

definition get_slice :: "'x ndarray \<Rightarrow> nat \<Rightarrow> nat \<Rightarrow> 'x ndarray" where
  "get_slice a lo hi = a\<lparr>nd_rows := drop lo (take hi (nd_rows a))\<rparr>"

text \<open>
  Writing \<^verbatim>\<open>a[lo:hi, :] = v\<close>. The bounds are clipped. On each axis \<open>v\<close> must have the
  length of the target or length 1, which numpy broadcasts; anything else raises
  \<^verbatim>\<open>ValueError\<close>. The entries are converted to the element type of \<open>a\<close>.
\<close>

definition fit_row :: "'x scalar_ops \<Rightarrow> dtype \<Rightarrow> dtype \<Rightarrow> nat \<Rightarrow> 'x list \<Rightarrow> 'x list" where
  "fit_row ops src dst w r =
     map (cast ops src dst) (if length r = w then r else replicate w (hd r))"

definition assign_slice :: "'x scalar_ops \<Rightarrow> 'x ndarray \<Rightarrow> nat \<Rightarrow> nat \<Rightarrow> 'x ndarray \<Rightarrow> py_error + 'x ndarray" where
  "assign_slice ops a lo hi v =
     (let lo' = min lo (length (nd_rows a));
          hi' = min hi (length (nd_rows a));
          n = hi' - lo' in
      if (length (nd_rows v) = n \<or> length (nd_rows v) = 1) \<and>
         (nd_width v = nd_width a \<or> nd_width v = 1)
      then Inr (a\<lparr>nd_rows :=
                  take lo' (nd_rows a)
                  @ map (fit_row ops (nd_dtype v) (nd_dtype a) (nd_width a))
                      (if length (nd_rows v) = n then nd_rows v else replicate n (hd (nd_rows v)))
                  @ drop (lo' + n) (nd_rows a)\<rparr>)
      else Inl ValueError)"

section \<open>Paths\<close>

text \<open>
  A path is the dictionary \<^verbatim>\<open>add_path\<close> receives. Its observations are dictionaries from
  keys to vectors; its actions and rewards are sequences of vectors; its terminals are an
  array, which the wrapping branch slices on two axes.
\<close>

record 'x path =
  observations :: "(string \<rightharpoonup> 'x tvec) list"
  actions :: "'x tvec list"
  rewards :: "'x tvec list"
  next_observations :: "(string \<rightharpoonup> 'x tvec) list"
  terminals :: "'x ndarray"

text \<open>
  \<^verbatim>\<open>flatten_n\<close>: \<^verbatim>\<open>np.asarray\<close> of a sequence of vectors, which must have one length and
  get one element type, then \<^verbatim>\<open>reshape((xs.shape[0], -1))\<close>, which numpy refuses for an
  array without entries.
\<close>

definition flatten_n :: "'x scalar_ops \<Rightarrow> 'x tvec list \<Rightarrow> py_error + 'x ndarray" where
  "flatten_n ops xs =
     (case xs of
        [] \<Rightarrow> Inl ValueError
      | x # _ \<Rightarrow>
          if \<not> list_all (\<lambda>y. length (snd y) = length (snd x)) xs then Inl ValueError
          else if length (snd x) = 0 then Inl ValueError
          else
            (let dt = foldl promote (fst x) (map fst xs) in
             Inr \<lparr>nd_dtype = dt, nd_width = length (snd x),
                  nd_rows = map (\<lambda>y. if fst y = dt then snd y else map (cast ops (fst y) dt) (snd y)) xs\<rparr>))"

text \<open>The comprehension \<^verbatim>\<open>[d[key] for d in dicts]\<close>: a missing key raises.\<close>

fun collect_key :: "(string \<rightharpoonup> 'v) list \<Rightarrow> string \<Rightarrow> py_error + 'v list" where
  "collect_key [] key = Inr []"
| "collect_key (d # ds) key =
     (case d key of
        None \<Rightarrow> Inl KeyError
      | Some v \<Rightarrow> (case collect_key ds key of Inl e \<Rightarrow> Inl e | Inr vs \<Rightarrow> Inr (v # vs)))"

fun flatten_dict ::
  "'x scalar_ops \<Rightarrow> (string \<rightharpoonup> 'x tvec) list \<Rightarrow> string list \<Rightarrow> py_error + (string \<rightharpoonup> 'x ndarray)" where
  "flatten_dict ops dicts [] = Inr Map.empty"
| "flatten_dict ops dicts (key # keys) =
     (case collect_key dicts key of
        Inl e \<Rightarrow> Inl e
      | Inr vs \<Rightarrow>
          (case flatten_n ops vs of
             Inl e \<Rightarrow> Inl e
           | Inr rows \<Rightarrow>
               (case flatten_dict ops dicts keys of
                  Inl e \<Rightarrow> Inl e
                | Inr m \<Rightarrow> Inr (m(key \<mapsto> rows)))))"

text \<open>
  \<^verbatim>\<open>unnormalize_image\<close> and \<^verbatim>\<open>normalize_image\<close> (lines 307-314), with their assertions
  on the element type.
\<close>

definition unnormalize_image :: "'x scalar_ops \<Rightarrow> 'x ndarray \<Rightarrow> py_error + 'x ndarray" where
  "unnormalize_image ops img =
     (if nd_dtype img = UInt8 then Inl AssertionError
      else Inr (img\<lparr>nd_dtype := UInt8,
                    nd_rows := map (map (unnormalize_entry ops (nd_dtype img))) (nd_rows img)\<rparr>))"

definition normalize_image :: "'x scalar_ops \<Rightarrow> 'x ndarray \<Rightarrow> py_error + 'x ndarray" where
  "normalize_image ops img =
     (if nd_dtype img \<noteq> UInt8 then Inl AssertionError
      else Inr (img\<lparr>nd_dtype := Float64,
                    nd_rows := map (map (normalize_entry ops)) (nd_rows img)\<rparr>))"

definition has_image :: "string \<Rightarrow> bool" where
  "has_image obs_key = sublist ''image'' obs_key"

text \<open>
  \<^verbatim>\<open>preprocess_obs_dict\<close> and \<^verbatim>\<open>postprocess_obs_dict\<close> (lines 287-304): the loop over the
  items of the dictionary. The dictionary they get is the one \<^verbatim>\<open>flatten_dict\<close> built from
  \<open>keys\<close>, so its items come in the order in which the keys first occur in \<open>keys\<close>, each
  key once. No array of the dictionaries they get is \<^verbatim>\<open>None\<close>.
\<close>

fun preprocess_items ::
  "'x scalar_ops \<Rightarrow> string list \<Rightarrow> (string \<rightharpoonup> 'x ndarray) \<Rightarrow> py_error + (string \<rightharpoonup> 'x ndarray)" where
  "preprocess_items ops [] obs_dict = Inr obs_dict"
| "preprocess_items ops (obs_key # keys) obs_dict =
     (case obs_dict obs_key of
        None \<Rightarrow> preprocess_items ops keys obs_dict
      | Some obs \<Rightarrow>
          if has_image obs_key
          then (case unnormalize_image ops obs of
                  Inl e \<Rightarrow> Inl e
                | Inr b \<Rightarrow> preprocess_items ops keys (obs_dict(obs_key \<mapsto> b)))
          else preprocess_items ops keys obs_dict)"

definition preprocess_obs_dict ::
  "'x scalar_ops \<Rightarrow> string list \<Rightarrow> (string \<rightharpoonup> 'x ndarray) \<Rightarrow> py_error + (string \<rightharpoonup> 'x ndarray)" where
  "preprocess_obs_dict ops keys obs_dict = preprocess_items ops (rev (remdups (rev keys))) obs_dict"

fun postprocess_items ::
  "'x scalar_ops \<Rightarrow> string list \<Rightarrow> (string \<rightharpoonup> 'x ndarray) \<Rightarrow> py_error + (string \<rightharpoonup> 'x ndarray)" where
  "postprocess_items ops [] obs_dict = Inr obs_dict"
| "postprocess_items ops (obs_key # keys) obs_dict =
     (case obs_dict obs_key of
        None \<Rightarrow> postprocess_items ops keys obs_dict
      | Some obs \<Rightarrow>
          if has_image obs_key
          then (case normalize_image ops obs of
                  Inl e \<Rightarrow> Inl e
                | Inr b \<Rightarrow> postprocess_items ops keys (obs_dict(obs_key \<mapsto> b)))
          else postprocess_items ops keys obs_dict)"

definition postprocess_obs_dict ::
  "'x scalar_ops \<Rightarrow> string list \<Rightarrow> (string \<rightharpoonup> 'x ndarray) \<Rightarrow> py_error + (string \<rightharpoonup> 'x ndarray)" where
  "postprocess_obs_dict ops keys obs_dict = postprocess_items ops (rev (remdups (rev keys))) obs_dict"

text \<open>
  \<^verbatim>\<open>np.eye(n)[actions].reshape((-1, n))\<close> (line 111): the index array must have an
  integer element type and every index must lie in \<open>[-n, n)\<close>, or numpy raises
  \<^verbatim>\<open>IndexError\<close>; a negative index counts from the end. Every entry of \<^verbatim>\<open>actions\<close>
  becomes one row.
\<close>

definition eye_row :: "'x scalar_ops \<Rightarrow> nat \<Rightarrow> 'x \<Rightarrow> py_error + 'x list" where
  "eye_row ops n x =
     (let i = to_index ops x in
      if - int n \<le> i \<and> i < int n
      then Inr (map (\<lambda>j. if int j = i mod int n then one_entry ops else zero_entry ops) [0..<n])
      else Inl IndexError)"

fun eye_rows :: "'x scalar_ops \<Rightarrow> nat \<Rightarrow> 'x list \<Rightarrow> py_error + 'x list list" where
  "eye_rows ops n [] = Inr []"
| "eye_rows ops n (x # xs) =
     (case eye_row ops n x of
        Inl e \<Rightarrow> Inl e
      | Inr r \<Rightarrow> (case eye_rows ops n xs of Inl e \<Rightarrow> Inl e | Inr rs \<Rightarrow> Inr (r # rs)))"

definition one_hot :: "'x scalar_ops \<Rightarrow> nat \<Rightarrow> 'x ndarray \<Rightarrow> py_error + 'x ndarray" where
  "one_hot ops n a =
     (if \<not> is_integer (nd_dtype a) then Inl IndexError
      else (case eye_rows ops n (concat (nd_rows a)) of
              Inl e \<Rightarrow> Inl e
            | Inr rs \<Rightarrow> Inr \<lparr>nd_dtype = Float64, nd_width = n, nd_rows = rs\<rparr>))"

section \<open>ObsDictRelabelingBuffer\<close>

text \<open>
  The state of an \<^verbatim>\<open>ObsDictRelabelingBuffer\<close>. Capacity, write pointer and size are
  natural numbers: \<^verbatim>\<open>np.zeros\<close> refuses a negative \<^verbatim>\<open>max_size\<close>, the pointer starts at
  0 and only \<^verbatim>\<open>add_path\<close> moves it. The record also has values with
  \<open>od_max_size < od_top\<close>, which no run produces; the subtraction
  \<^verbatim>\<open>self.max_size - self._top\<close> is exact on all others.
\<close>

record 'x obs_dict_buffer =
  od_max_size :: nat
  od_discrete :: bool
  od_action_dim :: nat
  od_fraction_goals_rollout_goals :: real
  od_fraction_goals_env_goals :: real
  od_ob_keys_to_save :: "string list"
  od_internal_keys :: "string list"
  od_goal_keys :: "string list"
  od_observation_key :: string
  od_desired_goal_key :: string
  od_achieved_goal_key :: string
  od_actions :: "'x ndarray"
  od_terminals :: "'x ndarray"
  od_obs :: "string \<rightharpoonup> 'x ndarray"
  od_next_obs :: "string \<rightharpoonup> 'x ndarray"
  od_top :: nat
  od_size :: nat
  od_idx_to_future_obs_idx :: "nat list option list"

text \<open>The keys every loop of the class runs over: \<^verbatim>\<open>self.ob_keys_to_save + self.internal_keys\<close>.\<close>

definition od_keys :: "'x obs_dict_buffer \<Rightarrow> string list" where
  "od_keys s = od_ob_keys_to_save s @ od_internal_keys s"

text \<open>
  The loop over the saved keys that stores one slice of the path's observations and next
  observations (lines 138-140 and 159-161). \<open>sel\<close> is the slice taken of the path's
  array: \<^verbatim>\<open>obs[key][path_slice]\<close> in the wrapping branch, the whole \<^verbatim>\<open>obs[key]\<close>
  otherwise.
\<close>

fun write_keys ::
  "'x scalar_ops \<Rightarrow> string list \<Rightarrow> nat \<Rightarrow> nat \<Rightarrow> ('x ndarray \<Rightarrow> 'x ndarray)
   \<Rightarrow> (string \<rightharpoonup> 'x ndarray) \<Rightarrow> (string \<rightharpoonup> 'x ndarray)
   \<Rightarrow> 'x obs_dict_buffer \<Rightarrow> py_error + 'x obs_dict_buffer" where
  "write_keys ops [] lo hi sel obs nxt s = Inr s"
| "write_keys ops (key # keys) lo hi sel obs nxt s =
     (case (od_obs s key, obs key, od_next_obs s key, nxt key) of
        (Some a, Some p, Some a', Some p') \<Rightarrow>
          (case assign_slice ops a lo hi (sel p) of
             Inl e \<Rightarrow> Inl e
           | Inr b \<Rightarrow>
               (case assign_slice ops a' lo hi (sel p') of
                  Inl e \<Rightarrow> Inl e
                | Inr b' \<Rightarrow>
                    write_keys ops keys lo hi sel obs nxt
                      (s\<lparr>od_obs := (od_obs s)(key \<mapsto> b), od_next_obs := (od_next_obs s)(key \<mapsto> b')\<rparr>)))
      | _ \<Rightarrow> Inl KeyError)"

text \<open>
  One pass of lines 136-140 (or 157-161): actions, terminals, then every saved key, all
  into the buffer rows \<^verbatim>\<open>[lo:hi]\<close>.
\<close>

definition write_block ::
  "'x scalar_ops \<Rightarrow> nat \<Rightarrow> nat \<Rightarrow> ('x ndarray \<Rightarrow> 'x ndarray) \<Rightarrow> 'x ndarray \<Rightarrow> 'x ndarray
   \<Rightarrow> (string \<rightharpoonup> 'x ndarray) \<Rightarrow> (string \<rightharpoonup> 'x ndarray)
   \<Rightarrow> 'x obs_dict_buffer \<Rightarrow> py_error + 'x obs_dict_buffer" where
  "write_block ops lo hi sel acts terms obs nxt s =
     (case assign_slice ops (od_actions s) lo hi (sel acts) of
        Inl e \<Rightarrow> Inl e
      | Inr a \<Rightarrow>
          (case assign_slice ops (od_terminals s) lo hi (sel terms) of
             Inl e \<Rightarrow> Inl e
           | Inr t \<Rightarrow>
               write_keys ops (od_keys s) lo hi sel obs nxt
                 (s\<lparr>od_actions := a, od_terminals := t\<rparr>)))"

text \<open>
  The loops \<^verbatim>\<open>for i in range(..): self._idx_to_future_obs_idx[i] = ...\<close>: a store into
  a Python list, which raises \<^verbatim>\<open>IndexError\<close> past its end.
\<close>

fun store_futures :: "nat list \<Rightarrow> (nat \<Rightarrow> nat list) \<Rightarrow> nat list option list \<Rightarrow> py_error + nat list option list" where
  "store_futures [] f fut = Inr fut"
| "store_futures (i # is) f fut =
     (if i < length fut then store_futures is f (fut[i := Some (f i)]) else Inl IndexError)"

text \<open>The branch of lines 117-154, taken when the path reaches the end of the arrays.\<close>

definition add_path_wrap ::
  "'x scalar_ops \<Rightarrow> nat \<Rightarrow> 'x ndarray \<Rightarrow> 'x ndarray \<Rightarrow> (string \<rightharpoonup> 'x ndarray) \<Rightarrow> (string \<rightharpoonup> 'x ndarray)
   \<Rightarrow> 'x obs_dict_buffer \<Rightarrow> py_error + 'x obs_dict_buffer" where
  "add_path_wrap ops path_len acts terms obs nxt s =
     (let num_pre_wrap_steps = od_max_size s - od_top s;
          num_post_wrap_steps = path_len - num_pre_wrap_steps in
      case write_block ops (od_top s) (od_top s + num_pre_wrap_steps)
             (\<lambda>p. get_slice p 0 num_pre_wrap_steps) acts terms obs nxt s of
        Inl e \<Rightarrow> Inl e
      | Inr s1 \<Rightarrow>
          (case write_block ops 0 num_post_wrap_steps
                  (\<lambda>p. get_slice p num_pre_wrap_steps path_len) acts terms obs nxt s1 of
             Inl e \<Rightarrow> Inl e
           | Inr s2 \<Rightarrow>
               (case store_futures [od_top s..<od_max_size s]
                       (\<lambda>i. [i..<od_max_size s] @ [0..<num_post_wrap_steps])
                       (od_idx_to_future_obs_idx s2) of
                  Inl e \<Rightarrow> Inl e
                | Inr fut1 \<Rightarrow>
                    (case store_futures [0..<num_post_wrap_steps]
                            (\<lambda>i. [i..<num_post_wrap_steps]) fut1 of
                       Inl e \<Rightarrow> Inl e
                     | Inr fut2 \<Rightarrow> Inr (s2\<lparr>od_idx_to_future_obs_idx := fut2\<rparr>)))))"

text \<open>The branch of lines 155-165.\<close>

definition add_path_plain ::
  "'x scalar_ops \<Rightarrow> nat \<Rightarrow> 'x ndarray \<Rightarrow> 'x ndarray \<Rightarrow> (string \<rightharpoonup> 'x ndarray) \<Rightarrow> (string \<rightharpoonup> 'x ndarray)
   \<Rightarrow> 'x obs_dict_buffer \<Rightarrow> py_error + 'x obs_dict_buffer" where
  "add_path_plain ops path_len acts terms obs nxt s =
     (case write_block ops (od_top s) (od_top s + path_len) (\<lambda>p. p) acts terms obs nxt s of
        Inl e \<Rightarrow> Inl e
      | Inr s1 \<Rightarrow>
          (case store_futures [od_top s..<od_top s + path_len]
                  (\<lambda>i. [i..<od_top s + path_len]) (od_idx_to_future_obs_idx s1) of
             Inl e \<Rightarrow> Inl e
           | Inr fut \<Rightarrow> Inr (s1\<lparr>od_idx_to_future_obs_idx := fut\<rparr>)))"

text \<open>
  \<^verbatim>\<open>ObsDictRelabelingBuffer.add_path\<close> (lines 101-169). The source returns nothing; the
  model returns the buffer it leaves and, beside it, which branch of the test of line 117
  ran, so that a statement about that test can be made.
\<close>

datatype branch = Wrapped | Straight

definition od_add_path_traced ::
  "'x scalar_ops \<Rightarrow> 'x obs_dict_buffer \<Rightarrow> 'x path \<Rightarrow> py_error + branch \<times> 'x obs_dict_buffer" where
  "od_add_path_traced ops s p =
     (let path_len = length (rewards p);
          keys = od_keys s in
      case flatten_n ops (actions p) of
        Inl e \<Rightarrow> Inl e
      | Inr acts0 \<Rightarrow>
          (case (if od_discrete s then one_hot ops (od_action_dim s) acts0 else Inr acts0) of
             Inl e \<Rightarrow> Inl e
           | Inr acts \<Rightarrow>
               (case flatten_dict ops (observations p) keys of
                  Inl e \<Rightarrow> Inl e
                | Inr obs0 \<Rightarrow>
                    (case flatten_dict ops (next_observations p) keys of
                       Inl e \<Rightarrow> Inl e
                     | Inr nxt0 \<Rightarrow>
                         (case preprocess_obs_dict ops keys obs0 of
                            Inl e \<Rightarrow> Inl e
                          | Inr obs \<Rightarrow>
                              (case preprocess_obs_dict ops keys nxt0 of
                                 Inl e \<Rightarrow> Inl e
                               | Inr nxt \<Rightarrow>
                                   (case (if od_max_size s \<le> od_top s + path_len
                                          then (case add_path_wrap ops path_len acts (terminals p) obs nxt s of
                                                  Inl e \<Rightarrow> Inl e | Inr s1 \<Rightarrow> Inr (Wrapped, s1))
                                          else (case add_path_plain ops path_len acts (terminals p) obs nxt s of
                                                  Inl e \<Rightarrow> Inl e | Inr s1 \<Rightarrow> Inr (Straight, s1))) of
                                      Inl e \<Rightarrow> Inl e
                                    | Inr (b, s1) \<Rightarrow>
                                        if od_max_size s = 0 then Inl ZeroDivisionError
                                        else Inr (b, s1\<lparr>od_top := (od_top s + path_len) mod od_max_size s,
                                                   od_size := min (od_size s + path_len) (od_max_size s)\<rparr>))))))))"

definition od_add_path :: "'x scalar_ops \<Rightarrow> 'x obs_dict_buffer \<Rightarrow> 'x path \<Rightarrow> py_error + 'x obs_dict_buffer" where
  "od_add_path ops s p =
     (case od_add_path_traced ops s p of Inl e \<Rightarrow> Inl e | Inr (b, s') \<Rightarrow> Inr s')"

section \<open>What add_path leaves in the arrays\<close>

text \<open>
  The rows of an array after a slice assignment that fits: \<open>vs\<close> replaces the rows from
  \<open>lo\<close> on. \<open>cast_rows\<close> are the rows a slice assignment stores, converted to the
  element type of the target, and \<open>stamp\<close> is the target after it.
\<close>

definition overwrite :: "'a list \<Rightarrow> nat \<Rightarrow> 'a list \<Rightarrow> 'a list" where
  "overwrite a lo vs = take lo a @ vs @ drop (lo + length vs) a"

definition cast_rows :: "'x scalar_ops \<Rightarrow> 'x ndarray \<Rightarrow> 'x ndarray \<Rightarrow> 'x list list" where
  "cast_rows ops a v = map (fit_row ops (nd_dtype v) (nd_dtype a) (nd_width a)) (nd_rows v)"

definition stamp :: "'x scalar_ops \<Rightarrow> 'x ndarray \<Rightarrow> nat \<Rightarrow> 'x ndarray \<Rightarrow> 'x ndarray" where
  "stamp ops a lo v = a\<lparr>nd_rows := overwrite (nd_rows a) lo (cast_rows ops a v)\<rparr>"

lemma length_cast_rows [simp]: "length (cast_rows ops a v) = length (nd_rows v)"
  by (simp add: cast_rows_def)

lemma assign_slice_fit:
  assumes "lo + length (nd_rows v) \<le> length (nd_rows a)" "nd_width v = nd_width a"
  shows "assign_slice ops a lo (lo + length (nd_rows v)) v = Inr (stamp ops a lo v)"
  using assms by (simp add: assign_slice_def stamp_def overwrite_def cast_rows_def Let_def min_def)

lemma length_overwrite: "lo + length vs \<le> length a \<Longrightarrow> length (overwrite a lo vs) = length a"
  by (simp add: overwrite_def)

lemma nth_overwrite:
  "lo + length vs \<le> length a \<Longrightarrow> i < length a \<Longrightarrow>
   overwrite a lo vs ! i = (if lo \<le> i \<and> i < lo + length vs then vs ! (i - lo) else a ! i)"
  by (auto simp: overwrite_def nth_append min_def)

lemma overwrite_idem:
  "lo + length vs \<le> length a \<Longrightarrow>
   overwrite (overwrite a lo vs) lo vs = overwrite a lo vs"
proof -
  assume h: "lo + length vs \<le> length a"
  have "length a \<le> lo \<Longrightarrow> length vs = 0" using h by arith
  then have "length a \<le> lo \<Longrightarrow> vs = []" by simp
  then show ?thesis using h by (auto simp: overwrite_def min_def)
qed

lemma stamp_fields [simp]:
  "nd_dtype (stamp ops a lo v) = nd_dtype a" "nd_width (stamp ops a lo v) = nd_width a"
  by (simp_all add: stamp_def)

lemma length_stamp:
  "lo + length (nd_rows v) \<le> length (nd_rows a) \<Longrightarrow>
   length (nd_rows (stamp ops a lo v)) = length (nd_rows a)"
  by (simp add: stamp_def length_overwrite)

lemma cast_rows_stamp [simp]: "cast_rows ops (stamp ops a lo v) w = cast_rows ops a w"
  by (simp add: cast_rows_def)

lemma stamp_idem:
  "lo + length (nd_rows v) \<le> length (nd_rows a) \<Longrightarrow>
   stamp ops (stamp ops a lo v) lo v = stamp ops a lo v"
  unfolding stamp_def[of ops "stamp ops a lo v"] cast_rows_stamp
  by (simp add: stamp_def overwrite_idem)

lemma collect_key_ok:
  "\<forall>d \<in> set dicts. d key \<noteq> None \<Longrightarrow> collect_key dicts key = Inr (map (\<lambda>d. the (d key)) dicts)"
  by (induction dicts) auto

lemma store_futures_ok:
  "\<forall>i \<in> set is. i < length fut \<Longrightarrow>
   \<exists>fut'. store_futures is f fut = Inr fut' \<and> length fut' = length fut \<and>
     (\<forall>i < length fut. fut' ! i = (if i \<in> set is then Some (f i) else fut ! i))"
proof (induction "is" arbitrary: fut)
  case Nil
  then show ?case by simp
next
  case (Cons i "is")
  then have "\<forall>j \<in> set is. j < length (fut[i := Some (f i)])" by simp
  from Cons.IH[OF this] obtain fut' where
    f: "store_futures is f (fut[i := Some (f i)]) = Inr fut'" "length fut' = length fut"
      "\<forall>j < length fut. fut' ! j = (if j \<in> set is then Some (f j) else fut[i := Some (f i)] ! j)"
    by auto
  from Cons.prems have "i < length fut" by simp
  with f show ?case by (auto simp: nth_list_update)
qed

lemma write_keys_ok:
  assumes "lo + n \<le> N"
    and "\<forall>k\<in>set keys. \<exists>a p a' p'.
           od_obs s k = Some a \<and> length (nd_rows a) = N \<and> obs k = Some p \<and>
           length (nd_rows (sel p)) = n \<and> nd_width (sel p) = nd_width a \<and>
           od_next_obs s k = Some a' \<and> length (nd_rows a') = N \<and> nxt k = Some p' \<and>
           length (nd_rows (sel p')) = n \<and> nd_width (sel p') = nd_width a'"
  shows "write_keys ops keys lo (lo + n) sel obs nxt s =
     Inr (s\<lparr>od_obs := \<lambda>k. if k \<in> set keys then Some (stamp ops (the (od_obs s k)) lo (sel (the (obs k)))) else od_obs s k,
            od_next_obs := \<lambda>k. if k \<in> set keys then Some (stamp ops (the (od_next_obs s k)) lo (sel (the (nxt k)))) else od_next_obs s k\<rparr>)"
  using assms(2)
proof (induction keys arbitrary: s)
  case Nil
  then show ?case by simp
next
  case (Cons k ks)
  from Cons.prems obtain a p a' p' where
    k: "od_obs s k = Some a" "length (nd_rows a) = N" "obs k = Some p" "length (nd_rows (sel p)) = n"
       "nd_width (sel p) = nd_width a"
       "od_next_obs s k = Some a'" "length (nd_rows a') = N" "nxt k = Some p'"
       "length (nd_rows (sel p')) = n" "nd_width (sel p') = nd_width a'"
    by auto
  let ?b = "stamp ops a lo (sel p)" and ?b' = "stamp ops a' lo (sel p')"
  let ?s1 = "s\<lparr>od_obs := (od_obs s)(k \<mapsto> ?b), od_next_obs := (od_next_obs s)(k \<mapsto> ?b')\<rparr>"
  have fit: "lo + length (nd_rows (sel p)) \<le> length (nd_rows a)"
    "lo + length (nd_rows (sel p')) \<le> length (nd_rows a')"
    using assms(1) k by simp_all
  have sl: "assign_slice ops a lo (lo + n) (sel p) = Inr ?b"
    "assign_slice ops a' lo (lo + n) (sel p') = Inr ?b'"
    using assign_slice_fit[OF fit(1) k(5), of ops] assign_slice_fit[OF fit(2) k(10), of ops] k by simp_all
  have pre: "\<forall>k'\<in>set ks. \<exists>a p a' p'.
           od_obs ?s1 k' = Some a \<and> length (nd_rows a) = N \<and> obs k' = Some p \<and>
           length (nd_rows (sel p)) = n \<and> nd_width (sel p) = nd_width a \<and>
           od_next_obs ?s1 k' = Some a' \<and> length (nd_rows a') = N \<and> nxt k' = Some p' \<and>
           length (nd_rows (sel p')) = n \<and> nd_width (sel p') = nd_width a'"
    using Cons.prems k fit by (auto simp: length_stamp)
  have e1: "(\<lambda>k'. if k' \<in> set ks then Some (stamp ops (the (od_obs ?s1 k')) lo (sel (the (obs k')))) else od_obs ?s1 k')
          = (\<lambda>k'. if k' \<in> set (k # ks) then Some (stamp ops (the (od_obs s k')) lo (sel (the (obs k')))) else od_obs s k')"
    using k fit by (auto simp: fun_eq_iff stamp_idem)
  have e2: "(\<lambda>k'. if k' \<in> set ks then Some (stamp ops (the (od_next_obs ?s1 k')) lo (sel (the (nxt k')))) else od_next_obs ?s1 k')
          = (\<lambda>k'. if k' \<in> set (k # ks) then Some (stamp ops (the (od_next_obs s k')) lo (sel (the (nxt k')))) else od_next_obs s k')"
    using k fit by (auto simp: fun_eq_iff stamp_idem)
  have "write_keys ops (k # ks) lo (lo + n) sel obs nxt s = write_keys ops ks lo (lo + n) sel obs nxt ?s1"
    using k sl by simp
  also have "\<dots> = Inr (?s1\<lparr>od_obs := \<lambda>k'. if k' \<in> set ks then Some (stamp ops (the (od_obs ?s1 k')) lo (sel (the (obs k')))) else od_obs ?s1 k',
            od_next_obs := \<lambda>k'. if k' \<in> set ks then Some (stamp ops (the (od_next_obs ?s1 k')) lo (sel (the (nxt k')))) else od_next_obs ?s1 k'\<rparr>)"
    by (rule Cons.IH[OF pre])
  finally show ?case unfolding e1 e2 by simp
qed

lemma write_block_ok:
  assumes "lo + n \<le> N" "length (nd_rows (od_actions s)) = N" "length (nd_rows (od_terminals s)) = N"
    "length (nd_rows (sel acts)) = n" "nd_width (sel acts) = nd_width (od_actions s)"
    "length (nd_rows (sel terms)) = n" "nd_width (sel terms) = nd_width (od_terminals s)"
    and "\<forall>k\<in>set (od_keys s). \<exists>a p a' p'.
           od_obs s k = Some a \<and> length (nd_rows a) = N \<and> obs k = Some p \<and>
           length (nd_rows (sel p)) = n \<and> nd_width (sel p) = nd_width a \<and>
           od_next_obs s k = Some a' \<and> length (nd_rows a') = N \<and> nxt k = Some p' \<and>
           length (nd_rows (sel p')) = n \<and> nd_width (sel p') = nd_width a'"
  shows "write_block ops lo (lo + n) sel acts terms obs nxt s =
     Inr (s\<lparr>od_actions := stamp ops (od_actions s) lo (sel acts),
            od_terminals := stamp ops (od_terminals s) lo (sel terms),
            od_obs := \<lambda>k. if k \<in> set (od_keys s) then Some (stamp ops (the (od_obs s k)) lo (sel (the (obs k)))) else od_obs s k,
            od_next_obs := \<lambda>k. if k \<in> set (od_keys s) then Some (stamp ops (the (od_next_obs s k)) lo (sel (the (nxt k)))) else od_next_obs s k\<rparr>)"
proof -
  let ?s1 = "s\<lparr>od_actions := stamp ops (od_actions s) lo (sel acts),
            od_terminals := stamp ops (od_terminals s) lo (sel terms)\<rparr>"
  have a: "assign_slice ops (od_actions s) lo (lo + n) (sel acts) = Inr (stamp ops (od_actions s) lo (sel acts))"
    using assign_slice_fit[of lo "sel acts" "od_actions s" ops] assms by simp
  have b: "assign_slice ops (od_terminals s) lo (lo + n) (sel terms) = Inr (stamp ops (od_terminals s) lo (sel terms))"
    using assign_slice_fit[of lo "sel terms" "od_terminals s" ops] assms by simp
  have k: "od_keys ?s1 = od_keys s" by (simp add: od_keys_def)
  have pre: "\<forall>k\<in>set (od_keys s). \<exists>a p a' p'.
           od_obs ?s1 k = Some a \<and> length (nd_rows a) = N \<and> obs k = Some p \<and>
           length (nd_rows (sel p)) = n \<and> nd_width (sel p) = nd_width a \<and>
           od_next_obs ?s1 k = Some a' \<and> length (nd_rows a') = N \<and> nxt k = Some p' \<and>
           length (nd_rows (sel p')) = n \<and> nd_width (sel p') = nd_width a'"
    using assms(8) by simp
  have "write_block ops lo (lo + n) sel acts terms obs nxt s = write_keys ops (od_keys s) lo (lo + n) sel obs nxt ?s1"
    unfolding write_block_def a b by simp
  also note write_keys_ok[OF assms(1) pre]
  finally show ?thesis by (simp cong: if_cong)
qed

lemma store_futures_eq:
  assumes "\<forall>i \<in> set is. i < length fut"
  shows "store_futures is f fut =
     Inr (map (\<lambda>i. if i \<in> set is then Some (f i) else fut ! i) [0..<length fut])"
proof -
  from store_futures_ok[OF assms, of f] obtain fut' where
    f: "store_futures is f fut = Inr fut'" "length fut' = length fut"
       "\<forall>i < length fut. fut' ! i = (if i \<in> set is then Some (f i) else fut ! i)"
    by blast
  have "fut' = map (\<lambda>i. if i \<in> set is then Some (f i) else fut ! i) [0..<length fut]"
    by (rule nth_equalityI) (use f in simp_all)
  with f(1) show ?thesis by simp
qed

text \<open>
  The buffer rows the two branches of \<^verbatim>\<open>add_path\<close> write, in the order of the path: the
  slices \<^verbatim>\<open>[top:max_size]\<close> and \<^verbatim>\<open>[0:num_post_wrap_steps]\<close> when
  \<^verbatim>\<open>self._top + path_len >= self.max_size\<close>, the slice \<^verbatim>\<open>[top:top + path_len]\<close> otherwise.
\<close>

definition written_slots :: "nat \<Rightarrow> nat \<Rightarrow> nat \<Rightarrow> nat list" where
  "written_slots t m l = (if m \<le> t + l then [t..<m] @ [0..<l - (m - t)] else [t..<t + l])"

lemma length_written_slots: "t < m \<Longrightarrow> l \<le> m \<Longrightarrow> length (written_slots t m l) = l"
  by (simp add: written_slots_def)

lemma wrap_mod:
  fixes t m j :: nat
  shows "t < m \<Longrightarrow> j < m \<Longrightarrow> (t + j) mod m = (if t + j < m then t + j else t + j - m)"
  by (simp add: le_mod_geq)

lemma nth_written_slots:
  assumes "t < m" "l \<le> m" "j < l"
  shows "written_slots t m l ! j = (t + j) mod m"
proof -
  have jm: "j < m" using assms by simp
  show ?thesis
    unfolding wrap_mod[OF assms(1) jm] using assms
    by (auto simp: written_slots_def nth_append)
qed

lemma written_slots_map:
  "t < m \<Longrightarrow> l \<le> m \<Longrightarrow> written_slots t m l = map (\<lambda>j. (t + j) mod m) [0..<l]"
  by (rule nth_equalityI) (simp_all add: length_written_slots nth_written_slots)

lemma slot_step:
  fixes t m j :: nat
  assumes "t < m" "j < m"
  shows "((t + j) mod m + m - t) mod m = j"
proof (cases "t + j < m")
  case True
  then have "(t + j) mod m + m - t = j + m" by simp
  then show ?thesis using assms by simp
next
  case False
  then have "(t + j) mod m = t + j - m" using assms by (simp add: le_mod_geq)
  then have "(t + j) mod m + m - t = j" using False by simp
  then show ?thesis using assms by simp
qed

lemma step_of_slot:
  fixes t m i :: nat
  assumes "t < m" "i < m"
  shows "(i + m - t) mod m = (if t \<le> i then i - t else i + m - t)"
proof (cases "t \<le> i")
  case True
  then have "i + m - t = (i - t) + m" by simp
  then have "(i + m - t) mod m = (i - t) mod m" by simp
  then show ?thesis using True assms by simp
next
  case False
  then show ?thesis using assms by simp
qed

lemma step_slot:
  fixes t m i :: nat
  assumes "t < m" "i < m"
  shows "(t + (i + m - t) mod m) mod m = i"
proof (cases "t \<le> i")
  case True
  then show ?thesis using assms by (simp add: step_of_slot)
next
  case False
  then have "t + (i + m - t) mod m = i + m" using assms by (simp add: step_of_slot)
  then show ?thesis using assms by simp
qed

lemma set_written_slots:
  assumes "t < m" "l \<le> m" "i < m"
  shows "i \<in> set (written_slots t m l) \<longleftrightarrow> (i + m - t) mod m < l"
proof
  assume "i \<in> set (written_slots t m l)"
  then obtain j where j: "j < l" "i = (t + j) mod m"
    using assms by (auto simp: written_slots_map)
  then have "j < m" using assms by simp
  then show "(i + m - t) mod m < l" using j slot_step[OF assms(1), of j] by simp
next
  assume h: "(i + m - t) mod m < l"
  have "i = (t + (i + m - t) mod m) mod m" using step_slot[OF assms(1,3)] by simp
  then have "i \<in> (\<lambda>j. (t + j) mod m) ` {0..<l}" using h by (intro image_eqI[of _ _ "(i + m - t) mod m"]) simp_all
  then show "i \<in> set (written_slots t m l)"
    unfolding written_slots_map[OF assms(1,2)] by simp
qed

lemma distinct_written_slots: "t < m \<Longrightarrow> l \<le> m \<Longrightarrow> distinct (written_slots t m l)"
  by (auto simp: written_slots_def)

text \<open>
  The array after both slice assignments of the wrapping branch, or after the single one of
  the other branch: \<open>vs\<close> written from row \<open>t\<close> on, continuing at row 0.
\<close>

definition place :: "'a list \<Rightarrow> nat \<Rightarrow> 'a list \<Rightarrow> 'a list" where
  "place a t vs =
     (if length a \<le> t + length vs
      then overwrite (overwrite a t (take (length a - t) vs)) 0 (drop (length a - t) vs)
      else overwrite a t vs)"

lemma length_place:
  "t < length a \<Longrightarrow> length vs \<le> length a \<Longrightarrow> length (place a t vs) = length a"
  by (simp add: place_def length_overwrite)

lemma nth_place:
  assumes "t < length a" "length vs \<le> length a" "i < length a"
  shows "place a t vs ! i =
     (if (i + length a - t) mod length a < length vs then vs ! ((i + length a - t) mod length a) else a ! i)"
proof (cases "length a \<le> t + length vs")
  case False
  from False assms show ?thesis
    unfolding step_of_slot[OF assms(1,3)]
    by (auto simp: place_def nth_overwrite)
next
  case True
  let ?pre = "length a - t"
  have l1: "length (overwrite a t (take ?pre vs)) = length a"
    using True assms by (simp add: length_overwrite)
  have "place a t vs ! i = overwrite (overwrite a t (take ?pre vs)) 0 (drop ?pre vs) ! i"
    using True by (simp add: place_def)
  also have "\<dots> = (if i < length vs - ?pre then vs ! (?pre + i) else overwrite a t (take ?pre vs) ! i)"
    using True assms l1 by (simp add: nth_overwrite)
  also have "overwrite a t (take ?pre vs) ! i = (if t \<le> i then vs ! (i - t) else a ! i)"
    using True assms by (simp add: nth_overwrite)
  finally show ?thesis using True assms
    unfolding step_of_slot[OF assms(1,3)]
    by (auto simp: add.commute)
qed

text \<open>
  The list \<^verbatim>\<open>_idx_to_future_obs_idx\<close> after the index loops of either branch: a written
  row holds the rows from itself to the last row of the path, in write order.
\<close>

definition futures_after :: "nat \<Rightarrow> nat \<Rightarrow> nat \<Rightarrow> nat list option list \<Rightarrow> nat list option list" where
  "futures_after t m l fut =
     map (\<lambda>i. if (i + m - t) mod m < l then Some (drop ((i + m - t) mod m) (written_slots t m l)) else fut ! i)
       [0..<m]"

lemma futures_plain:
  assumes "t + l < m" "length fut = m"
  shows "store_futures [t..<t + l] (\<lambda>i. [i..<t + l]) fut = Inr (futures_after t m l fut)"
proof -
  have t: "t < m" and l: "l \<le> m" using assms by simp_all
  have ws: "written_slots t m l = [t..<t + l]" using assms by (simp add: written_slots_def)
  have "store_futures [t..<t + l] (\<lambda>i. [i..<t + l]) fut =
      Inr (map (\<lambda>i. if i \<in> set [t..<t + l] then Some [i..<t + l] else fut ! i) [0..<length fut])"
    by (rule store_futures_eq) (use assms in simp)
  also have "map (\<lambda>i. if i \<in> set [t..<t + l] then Some [i..<t + l] else fut ! i) [0..<length fut]
      = futures_after t m l fut"
    unfolding futures_after_def assms(2)
  proof (rule map_cong[OF refl])
    fix i assume "i \<in> set [0..<m]"
    then have i: "i < m" by simp
    have mem: "i \<in> set [t..<t + l] \<longleftrightarrow> (i + m - t) mod m < l"
      using set_written_slots[OF t l i] ws by simp
    show "(if i \<in> set [t..<t + l] then Some [i..<t + l] else fut ! i) =
          (if (i + m - t) mod m < l then Some (drop ((i + m - t) mod m) (written_slots t m l)) else fut ! i)"
    proof (cases "i \<in> set [t..<t + l]")
      case True
      then have "t \<le> i" by simp
      then have "(i + m - t) mod m = i - t" using step_of_slot[OF t i] by simp
      then show ?thesis using True mem ws \<open>t \<le> i\<close> by simp
    next
      case False
      then have "\<not> (i + m - t) mod m < l" using mem by blast
      then show ?thesis using False by auto
    qed
  qed
  finally show ?thesis .
qed

lemma futures_wrap:
  assumes "t < m" "l \<le> m" "m \<le> t + l" "length fut = m"
  shows "(case store_futures [t..<m] (\<lambda>i. [i..<m] @ [0..<l - (m - t)]) fut of
            Inl e \<Rightarrow> Inl e
          | Inr fut1 \<Rightarrow> store_futures [0..<l - (m - t)] (\<lambda>i. [i..<l - (m - t)]) fut1)
         = Inr (futures_after t m l fut)"
proof -
  let ?post = "l - (m - t)"
  let ?f1 = "map (\<lambda>i. if i \<in> set [t..<m] then Some ([i..<m] @ [0..<?post]) else fut ! i) [0..<length fut]"
  have ws: "written_slots t m l = [t..<m] @ [0..<?post]" using assms by (simp add: written_slots_def)
  have post: "?post \<le> t" using assms by simp
  have s1: "store_futures [t..<m] (\<lambda>i. [i..<m] @ [0..<?post]) fut = Inr ?f1"
    by (rule store_futures_eq) (use assms in simp)
  have s2: "store_futures [0..<?post] (\<lambda>i. [i..<?post]) ?f1 =
      Inr (map (\<lambda>i. if i \<in> set [0..<?post] then Some [i..<?post] else ?f1 ! i) [0..<length ?f1])"
    by (rule store_futures_eq) (use assms post in simp)
  have "map (\<lambda>i. if i \<in> set [0..<?post] then Some [i..<?post] else ?f1 ! i) [0..<length ?f1]
      = futures_after t m l fut"
    unfolding futures_after_def
  proof (rule map_cong)
    show "[0..<length ?f1] = [0..<m]" using assms by simp
  next
    fix i assume "i \<in> set [0..<m]"
    then have i: "i < m" by simp
    have f1i: "?f1 ! i = (if t \<le> i then Some ([i..<m] @ [0..<?post]) else fut ! i)"
      using i assms by simp
    show "(if i \<in> set [0..<?post] then Some [i..<?post] else ?f1 ! i) =
          (if (i + m - t) mod m < l then Some (drop ((i + m - t) mod m) (written_slots t m l)) else fut ! i)"
    proof (cases "i < ?post")
      case True
      then have "\<not> t \<le> i" using post by simp
      then have st: "(i + m - t) mod m = i + m - t" using step_of_slot[OF assms(1) i] by simp
      have "i + m - t < l" using True assms by simp
      moreover have "drop (i + m - t) ([t..<m] @ [0..<?post]) = [i..<?post]"
        using True assms \<open>\<not> t \<le> i\<close> by simp
      ultimately show ?thesis using True st ws by simp
    next
      case False
      show ?thesis
      proof (cases "t \<le> i")
        case True
        then have st: "(i + m - t) mod m = i - t" using step_of_slot[OF assms(1) i] by simp
        have "i - t < l" using True i assms by simp
        moreover have "drop (i - t) ([t..<m] @ [0..<?post]) = [i..<m] @ [0..<?post]"
          using True i by simp
        ultimately show ?thesis using False st ws f1i True by simp
      next
        case nt: False
        then have st: "(i + m - t) mod m = i + m - t" using step_of_slot[OF assms(1) i] by simp
        have "\<not> i + m - t < l" using False nt assms by simp
        then show ?thesis using False st f1i nt by simp
      qed
    qed
  qed
  then show ?thesis using s1 s2 by simp
qed

text \<open>
  The shape the constructor gives a buffer and \<^verbatim>\<open>add_path\<close> keeps: every array and the list
  of index lists have \<^verbatim>\<open>max_size\<close> rows, the action array has \<^verbatim>\<open>_action_dim\<close> columns,
  and every saved key has its two arrays.
\<close>

definition od_shaped :: "'x obs_dict_buffer \<Rightarrow> bool" where
  "od_shaped s =
     (length (nd_rows (od_actions s)) = od_max_size s \<and>
      nd_width (od_actions s) = od_action_dim s \<and>
      length (nd_rows (od_terminals s)) = od_max_size s \<and>
      length (od_idx_to_future_obs_idx s) = od_max_size s \<and>
      list_all (\<lambda>key. case od_obs s key of None \<Rightarrow> False | Some a \<Rightarrow> length (nd_rows a) = od_max_size s) (od_keys s) \<and>
      list_all (\<lambda>key. case od_next_obs s key of None \<Rightarrow> False | Some a \<Rightarrow> length (nd_rows a) = od_max_size s) (od_keys s))"

text \<open>
  A path that \<^verbatim>\<open>add_path\<close> stores without raising. Under one key, every dictionary of the
  path has a vector of the width of that key's array and of one element type, and an image
  is not of bytes, which \<^verbatim>\<open>unnormalize_image\<close> refuses. The path has \<open>l\<close>
  observations, actions, rewards, next observations and rows of terminals; the terminals have
  the width of the terminal array; the actions have one element type, and are either one
  integer index into \<^verbatim>\<open>np.eye(self._action_dim)\<close> each (a discrete action space) or
  vectors of the width of the action array. Paths outside this set can raise; three of them
  are evaluated below.
\<close>

definition key_fits :: "'x ndarray option \<Rightarrow> (string \<rightharpoonup> 'x tvec) list \<Rightarrow> string \<Rightarrow> bool" where
  "key_fits arr dicts key =
     (case arr of
        None \<Rightarrow> False
      | Some a \<Rightarrow>
          0 < nd_width a \<and>
          list_all (\<lambda>d. case d key of
                          None \<Rightarrow> False
                        | Some v \<Rightarrow> length (snd v) = nd_width a \<and> fst v = fst (the (hd dicts key))) dicts \<and>
          (has_image key \<longrightarrow> fst (the (hd dicts key)) \<noteq> UInt8))"

definition path_fits :: "'x scalar_ops \<Rightarrow> 'x obs_dict_buffer \<Rightarrow> 'x path \<Rightarrow> nat \<Rightarrow> bool" where
  "path_fits ops s p l =
     (length (observations p) = l \<and> length (actions p) = l \<and> length (rewards p) = l \<and>
      length (next_observations p) = l \<and> length (nd_rows (terminals p)) = l \<and>
      nd_width (terminals p) = nd_width (od_terminals s) \<and>
      list_all (\<lambda>r. length r = nd_width (terminals p)) (nd_rows (terminals p)) \<and>
      list_all (\<lambda>a. fst a = fst (hd (actions p))) (actions p) \<and>
      (if od_discrete s
       then is_integer (fst (hd (actions p))) \<and>
            list_all (\<lambda>a. length (snd a) = 1 \<and>
                          - int (od_action_dim s) \<le> to_index ops (hd (snd a)) \<and>
                          to_index ops (hd (snd a)) < int (od_action_dim s)) (actions p)
       else 0 < nd_width (od_actions s) \<and>
            list_all (\<lambda>a. length (snd a) = nd_width (od_actions s)) (actions p)) \<and>
      list_all (\<lambda>key. key_fits (od_obs s key) (observations p) key \<and>
                      key_fits (od_next_obs s key) (next_observations p) key) (od_keys s))"

text \<open>
  What the claims say a row of the buffer holds after \<^verbatim>\<open>add_path\<close>, written from the
  path alone: the action of step \<open>j\<close> (its one-hot row for a discrete action space),
  the terminal row of step \<open>j\<close>, and under every key the vector of step \<open>j\<close> (an
  image as bytes), each converted to the element type of the array it is stored in.
\<close>

definition stored_actions :: "'x scalar_ops \<Rightarrow> 'x obs_dict_buffer \<Rightarrow> 'x path \<Rightarrow> 'x list list" where
  "stored_actions ops s p =
     (if od_discrete s
      then map (\<lambda>a. map (cast ops Float64 (nd_dtype (od_actions s)))
                      (map (\<lambda>j. if int j = to_index ops (hd (snd a)) mod int (od_action_dim s)
                                then one_entry ops else zero_entry ops) [0..<od_action_dim s]))
             (actions p)
      else map (\<lambda>a. map (cast ops (fst a) (nd_dtype (od_actions s))) (snd a)) (actions p))"

definition stored_terminals :: "'x scalar_ops \<Rightarrow> 'x obs_dict_buffer \<Rightarrow> 'x path \<Rightarrow> 'x list list" where
  "stored_terminals ops s p =
     map (map (cast ops (nd_dtype (terminals p)) (nd_dtype (od_terminals s)))) (nd_rows (terminals p))"

definition stored_rows :: "'x scalar_ops \<Rightarrow> dtype \<Rightarrow> (string \<rightharpoonup> 'x tvec) list \<Rightarrow> string \<Rightarrow> 'x list list" where
  "stored_rows ops dst dicts key =
     map (\<lambda>d. if has_image key
              then map (cast ops UInt8 dst) (map (unnormalize_entry ops (fst (the (d key)))) (snd (the (d key))))
              else map (cast ops (fst (the (d key))) dst) (snd (the (d key)))) dicts"

lemma promote_same [simp]: "promote dt dt = dt"
  by (simp add: promote_def)

lemma foldl_promote_same:
  "list_all (\<lambda>x. fst x = dt) xs \<Longrightarrow> foldl promote dt (map fst xs) = dt"
  by (induction xs) simp_all

lemma flatten_n_uniform:
  assumes "xs \<noteq> []" "0 < w" "list_all (\<lambda>x. length (snd x) = w \<and> fst x = dt) xs"
  shows "flatten_n ops xs = Inr \<lparr>nd_dtype = dt, nd_width = w, nd_rows = map snd xs\<rparr>"
proof -
  obtain x rest where xs: "xs = x # rest" using assms(1) by (cases xs) auto
  have x: "length (snd x) = w" "fst x = dt" using assms(3) xs by simp_all
  have a: "list_all (\<lambda>y. length (snd y) = length (snd x)) xs"
    using assms(3) x by (simp add: list_all_iff)
  have b: "list_all (\<lambda>x. fst x = dt) xs" using assms(3) by (simp add: list_all_iff)
  have c: "foldl promote (fst x) (map fst xs) = dt"
    using foldl_promote_same[OF b] x by simp
  have d: "map (\<lambda>y. if fst y = dt then snd y else map (cast ops (fst y) dt) (snd y)) xs = map snd xs"
    using b by (simp add: list_all_iff)
  show ?thesis
    using a assms(2) x(1) c d unfolding flatten_n_def xs[symmetric]
    by (simp add: xs Let_def)
qed

lemma eye_rows_ok:
  assumes "list_all (\<lambda>x. - int n \<le> to_index ops x \<and> to_index ops x < int n) xs"
  shows "eye_rows ops n xs =
     Inr (map (\<lambda>x. map (\<lambda>j. if int j = to_index ops x mod int n then one_entry ops else zero_entry ops) [0..<n]) xs)"
  using assms by (induction xs) (simp_all add: eye_row_def Let_def)

lemma concat_singletons:
  "list_all (\<lambda>r. length r = 1) rs \<Longrightarrow> concat rs = map hd rs"
proof (induction rs)
  case Nil
  then show ?case by simp
next
  case (Cons r rs)
  then obtain x where "r = [x]" by (cases r) auto
  with Cons show ?case by simp
qed

lemma one_hot_ok:
  assumes "is_integer (nd_dtype a)"
    "list_all (\<lambda>r. length r = 1 \<and> - int n \<le> to_index ops (hd r) \<and> to_index ops (hd r) < int n) (nd_rows a)"
  shows "one_hot ops n a =
     Inr \<lparr>nd_dtype = Float64, nd_width = n,
          nd_rows = map (\<lambda>r. map (\<lambda>j. if int j = to_index ops (hd r) mod int n
                                       then one_entry ops else zero_entry ops) [0..<n]) (nd_rows a)\<rparr>"
proof -
  have c: "concat (nd_rows a) = map hd (nd_rows a)"
    by (rule concat_singletons) (use assms(2) in \<open>simp add: list_all_iff\<close>)
  have r: "list_all (\<lambda>x. - int n \<le> to_index ops x \<and> to_index ops x < int n) (map hd (nd_rows a))"
    using assms(2) by (simp add: list_all_iff)
  show ?thesis
    using assms(1) eye_rows_ok[OF r] by (simp add: one_hot_def c comp_def)
qed

text \<open>
  The array \<^verbatim>\<open>flatten_dict\<close> makes under one key of a fitting path, and what
  \<^verbatim>\<open>preprocess_obs_dict\<close> makes of it.
\<close>

definition flat_key :: "nat \<Rightarrow> (string \<rightharpoonup> 'x tvec) list \<Rightarrow> string \<Rightarrow> 'x ndarray" where
  "flat_key w dicts key =
     \<lparr>nd_dtype = fst (the (hd dicts key)), nd_width = w, nd_rows = map (\<lambda>d. snd (the (d key))) dicts\<rparr>"

definition unnormalized :: "'x scalar_ops \<Rightarrow> string \<Rightarrow> 'x ndarray \<Rightarrow> 'x ndarray" where
  "unnormalized ops key a =
     (if has_image key
      then a\<lparr>nd_dtype := UInt8, nd_rows := map (map (unnormalize_entry ops (nd_dtype a))) (nd_rows a)\<rparr>
      else a)"

lemma key_fits_D:
  assumes "key_fits arr dicts key"
  obtains a where "arr = Some a" "0 < nd_width a"
    "\<forall>d\<in>set dicts. \<exists>v. d key = Some v \<and> length (snd v) = nd_width a \<and> fst v = fst (the (hd dicts key))"
    "has_image key \<longrightarrow> fst (the (hd dicts key)) \<noteq> UInt8"
proof -
  from assms obtain a where a: "arr = Some a" by (cases arr) (auto simp: key_fits_def)
  have 1: "0 < nd_width a" and 3: "has_image key \<longrightarrow> fst (the (hd dicts key)) \<noteq> UInt8"
    using assms a by (simp_all add: key_fits_def)
  have 2: "\<forall>d\<in>set dicts. \<exists>v. d key = Some v \<and> length (snd v) = nd_width a \<and> fst v = fst (the (hd dicts key))"
  proof
    fix d assume "d \<in> set dicts"
    then have "case d key of None \<Rightarrow> False
       | Some v \<Rightarrow> length (snd v) = nd_width a \<and> fst v = fst (the (hd dicts key))"
      using assms a by (simp add: key_fits_def list_all_iff)
    then show "\<exists>v. d key = Some v \<and> length (snd v) = nd_width a \<and> fst v = fst (the (hd dicts key))"
      by (cases "d key") auto
  qed
  from a 1 2 3 show ?thesis by (rule that)
qed

lemma flatten_key_ok:
  assumes ne: "dicts \<noteq> []" and kf: "key_fits arr dicts key"
  shows "\<exists>vs. collect_key dicts key = Inr vs \<and>
     flatten_n ops vs = Inr (flat_key (nd_width (the arr)) dicts key)"
proof -
  from kf obtain a where a: "arr = Some a" "0 < nd_width a"
    "\<forall>d\<in>set dicts. \<exists>v. d key = Some v \<and> length (snd v) = nd_width a \<and> fst v = fst (the (hd dicts key))"
    by (rule key_fits_D)
  let ?vs = "map (\<lambda>d. the (d key)) dicts"
  have ck: "collect_key dicts key = Inr ?vs"
    by (rule collect_key_ok) (use a(3) in auto)
  have all: "list_all (\<lambda>x. length (snd x) = nd_width a \<and> fst x = fst (the (hd dicts key))) ?vs"
    using a(3) by (auto simp: list_all_iff)
  have "flatten_n ops ?vs = Inr \<lparr>nd_dtype = fst (the (hd dicts key)), nd_width = nd_width a, nd_rows = map snd ?vs\<rparr>"
    by (rule flatten_n_uniform[OF _ a(2) all]) (use ne in simp)
  then have "flatten_n ops ?vs = Inr (flat_key (nd_width (the arr)) dicts key)"
    by (simp add: flat_key_def a(1) comp_def)
  with ck show ?thesis by blast
qed

lemma flatten_dict_ok:
  assumes ne: "dicts \<noteq> []" and kf: "\<forall>key\<in>set keys. key_fits (arr key) dicts key"
  shows "flatten_dict ops dicts keys =
     Inr (\<lambda>key. if key \<in> set keys then Some (flat_key (nd_width (the (arr key))) dicts key) else None)"
  using kf
proof (induction keys)
  case Nil
  then show ?case by simp
next
  case (Cons k ks)
  from flatten_key_ok[OF ne, of "arr k" k ops] Cons.prems obtain vs where
    vs: "collect_key dicts k = Inr vs" "flatten_n ops vs = Inr (flat_key (nd_width (the (arr k))) dicts k)"
    by auto
  from Cons have ih: "flatten_dict ops dicts ks =
     Inr (\<lambda>key. if key \<in> set ks then Some (flat_key (nd_width (the (arr key))) dicts key) else None)"
    by simp
  show ?case by (simp add: vs ih fun_eq_iff)
qed

lemma preprocess_items_ok:
  assumes "distinct ks"
    and "\<forall>k\<in>set ks. \<forall>a. m k = Some a \<longrightarrow> has_image k \<longrightarrow> nd_dtype a \<noteq> UInt8"
  shows "preprocess_items ops ks m =
     Inr (\<lambda>k. if k \<in> set ks then map_option (unnormalized ops k) (m k) else m k)"
  using assms
proof (induction ks arbitrary: m)
  case Nil
  then show ?case by simp
next
  case (Cons k ks)
  have d: "distinct ks" "k \<notin> set ks" using Cons.prems(1) by simp_all
  show ?case
  proof (cases "m k")
    case None
    have "preprocess_items ops (k # ks) m = preprocess_items ops ks m" using None by simp
    also have "\<dots> = Inr (\<lambda>k'. if k' \<in> set ks then map_option (unnormalized ops k') (m k') else m k')"
      by (rule Cons.IH[OF d(1)]) (use Cons.prems(2) in auto)
    also have "(\<lambda>k'. if k' \<in> set ks then map_option (unnormalized ops k') (m k') else m k')
        = (\<lambda>k'. if k' \<in> set (k # ks) then map_option (unnormalized ops k') (m k') else m k')"
      using None by (auto simp: fun_eq_iff)
    finally show ?thesis .
  next
    case (Some a)
    show ?thesis
    proof (cases "has_image k")
      case False
      have "preprocess_items ops (k # ks) m = preprocess_items ops ks m" using Some False by simp
      also have "\<dots> = Inr (\<lambda>k'. if k' \<in> set ks then map_option (unnormalized ops k') (m k') else m k')"
        by (rule Cons.IH[OF d(1)]) (use Cons.prems(2) in auto)
      also have "(\<lambda>k'. if k' \<in> set ks then map_option (unnormalized ops k') (m k') else m k')
          = (\<lambda>k'. if k' \<in> set (k # ks) then map_option (unnormalized ops k') (m k') else m k')"
        using Some False by (auto simp: fun_eq_iff unnormalized_def)
      finally show ?thesis .
    next
      case True
      then have nu: "nd_dtype a \<noteq> UInt8" using Cons.prems(2) Some by simp
      let ?b = "unnormalized ops k a"
      have un: "unnormalize_image ops a = Inr ?b"
        using nu True by (simp add: unnormalize_image_def unnormalized_def)
      have "preprocess_items ops (k # ks) m = preprocess_items ops ks (m(k \<mapsto> ?b))"
        using Some True un by simp
      also have "\<dots> = Inr (\<lambda>k'. if k' \<in> set ks then map_option (unnormalized ops k') ((m(k \<mapsto> ?b)) k')
                                  else (m(k \<mapsto> ?b)) k')"
        by (rule Cons.IH[OF d(1)]) (use Cons.prems(2) d(2) in auto)
      also have "(\<lambda>k'. if k' \<in> set ks then map_option (unnormalized ops k') ((m(k \<mapsto> ?b)) k')
                                  else (m(k \<mapsto> ?b)) k')
          = (\<lambda>k'. if k' \<in> set (k # ks) then map_option (unnormalized ops k') (m k') else m k')"
        using Some d(2) by (auto simp: fun_eq_iff)
      finally show ?thesis .
    qed
  qed
qed

lemma preprocess_flat:
  assumes ne: "dicts \<noteq> []" and kf: "\<forall>key\<in>set keys. key_fits (arr key) dicts key"
  shows "\<exists>m. flatten_dict ops dicts keys = Inr m \<and>
     preprocess_obs_dict ops keys m =
       Inr (\<lambda>key. if key \<in> set keys
                   then Some (unnormalized ops key (flat_key (nd_width (the (arr key))) dicts key))
                   else None)"
proof -
  let ?m = "\<lambda>key. if key \<in> set keys then Some (flat_key (nd_width (the (arr key))) dicts key) else None"
  have f: "flatten_dict ops dicts keys = Inr ?m" by (rule flatten_dict_ok[OF ne kf])
  have img: "\<forall>k\<in>set (rev (remdups (rev keys))). \<forall>a. ?m k = Some a \<longrightarrow> has_image k \<longrightarrow> nd_dtype a \<noteq> UInt8"
  proof (intro ballI allI impI)
    fix k a assume k: "k \<in> set (rev (remdups (rev keys)))" and a: "?m k = Some a" and h: "has_image k"
    from k kf have "key_fits (arr k) dicts k" by simp
    then have "fst (the (hd dicts k)) \<noteq> UInt8"
      using h by (cases "arr k") (auto simp: key_fits_def)
    moreover have "a = flat_key (nd_width (the (arr k))) dicts k" using a k by simp
    ultimately show "nd_dtype a \<noteq> UInt8" by (simp add: flat_key_def)
  qed
  have "preprocess_obs_dict ops keys ?m =
      Inr (\<lambda>k. if k \<in> set (rev (remdups (rev keys))) then map_option (unnormalized ops k) (?m k) else ?m k)"
    unfolding preprocess_obs_dict_def
  proof -
    have d: "distinct (rev (remdups (rev keys)))" by simp
    show "preprocess_items ops (rev (remdups (rev keys))) ?m =
      Inr (\<lambda>k. if k \<in> set (rev (remdups (rev keys))) then map_option (unnormalized ops k) (?m k) else ?m k)"
      by (rule preprocess_items_ok[OF d img])
  qed
  also have "(\<lambda>k. if k \<in> set (rev (remdups (rev keys))) then map_option (unnormalized ops k) (?m k) else ?m k)
      = (\<lambda>key. if key \<in> set keys
                   then Some (unnormalized ops key (flat_key (nd_width (the (arr key))) dicts key))
                   else None)"
    by (auto simp: fun_eq_iff)
  finally show ?thesis using f by blast
qed

text \<open>
  An array of the buffer after the slice assignments of either branch.
\<close>

definition place_arr :: "'x scalar_ops \<Rightarrow> 'x ndarray \<Rightarrow> nat \<Rightarrow> 'x ndarray \<Rightarrow> 'x ndarray" where
  "place_arr ops a t v = a\<lparr>nd_rows := place (nd_rows a) t (cast_rows ops a v)\<rparr>"

lemma od_shaped_keys:
  "od_shaped s \<Longrightarrow> key \<in> set (od_keys s) \<Longrightarrow>
   \<exists>a a'. od_obs s key = Some a \<and> length (nd_rows a) = od_max_size s \<and>
           od_next_obs s key = Some a' \<and> length (nd_rows a') = od_max_size s"
  unfolding od_shaped_def list_all_iff
  by (cases "od_obs s key"; cases "od_next_obs s key") force+

lemma get_slice_fields [simp]:
  "nd_width (get_slice v lo hi) = nd_width v" "nd_dtype (get_slice v lo hi) = nd_dtype v"
  "nd_rows (get_slice v lo hi) = drop lo (take hi (nd_rows v))"
  by (simp_all add: get_slice_def)

lemma cast_rows_get_slice:
  "cast_rows ops a (get_slice v lo hi) = drop lo (take hi (cast_rows ops a v))"
  by (simp add: cast_rows_def drop_map take_map)

lemma stamp_plain:
  "\<not> length (nd_rows a) \<le> t + length (nd_rows v) \<Longrightarrow> stamp ops a t v = place_arr ops a t v"
  by (simp add: stamp_def place_arr_def place_def)

lemma stamp_wrap:
  assumes "length (nd_rows a) = m" "length (nd_rows v) = l" "t < m" "m \<le> t + l"
  shows "stamp ops (stamp ops a t (get_slice v 0 (m - t))) 0 (get_slice v (m - t) l) = place_arr ops a t v"
proof -
  have 1: "cast_rows ops a (get_slice v 0 (m - t)) = take (m - t) (cast_rows ops a v)"
    by (simp add: cast_rows_get_slice)
  have 2: "cast_rows ops a (get_slice v (m - t) l) = drop (m - t) (cast_rows ops a v)"
    using assms(2) by (simp add: cast_rows_get_slice)
  show ?thesis
    unfolding stamp_def[of ops _ 0] cast_rows_stamp 2
    using assms by (simp add: stamp_def 1 place_arr_def place_def)
qed

lemma add_path_plain_eq:
  assumes sh: "od_shaped s" and fit: "od_top s + l < od_max_size s"
    and la: "length (nd_rows acts) = l" "nd_width acts = nd_width (od_actions s)"
    and lt: "length (nd_rows terms) = l" "nd_width terms = nd_width (od_terminals s)"
    and rows: "\<forall>key\<in>set (od_keys s). \<exists>p p'.
        obs key = Some p \<and> length (nd_rows p) = l \<and> nd_width p = nd_width (the (od_obs s key)) \<and>
        nxt key = Some p' \<and> length (nd_rows p') = l \<and> nd_width p' = nd_width (the (od_next_obs s key))"
  shows "add_path_plain ops l acts terms obs nxt s =
     Inr (s\<lparr>od_actions := place_arr ops (od_actions s) (od_top s) acts,
            od_terminals := place_arr ops (od_terminals s) (od_top s) terms,
            od_obs := \<lambda>key. if key \<in> set (od_keys s)
                        then Some (place_arr ops (the (od_obs s key)) (od_top s) (the (obs key))) else od_obs s key,
            od_next_obs := \<lambda>key. if key \<in> set (od_keys s)
                        then Some (place_arr ops (the (od_next_obs s key)) (od_top s) (the (nxt key))) else od_next_obs s key,
            od_idx_to_future_obs_idx :=
              futures_after (od_top s) (od_max_size s) l (od_idx_to_future_obs_idx s)\<rparr>)"
proof -
  let ?t = "od_top s" and ?m = "od_max_size s"
  have len: "length (nd_rows (od_actions s)) = ?m" "length (nd_rows (od_terminals s)) = ?m"
    "length (od_idx_to_future_obs_idx s) = ?m"
    using sh by (simp_all add: od_shaped_def)
  have pre: "\<forall>k\<in>set (od_keys s). \<exists>a p a' p'.
           od_obs s k = Some a \<and> length (nd_rows a) = ?m \<and> obs k = Some p \<and>
           length (nd_rows ((\<lambda>p. p) p)) = l \<and> nd_width ((\<lambda>p. p) p) = nd_width a \<and>
           od_next_obs s k = Some a' \<and> length (nd_rows a') = ?m \<and> nxt k = Some p' \<and>
           length (nd_rows ((\<lambda>p. p) p')) = l \<and> nd_width ((\<lambda>p. p) p') = nd_width a'"
  proof
    fix k assume k: "k \<in> set (od_keys s)"
    from od_shaped_keys[OF sh k] obtain a a' where
      a: "od_obs s k = Some a" "length (nd_rows a) = ?m" "od_next_obs s k = Some a'" "length (nd_rows a') = ?m"
      by blast
    from rows k obtain p p' where
      "obs k = Some p" "length (nd_rows p) = l" "nd_width p = nd_width (the (od_obs s k))"
      "nxt k = Some p'" "length (nd_rows p') = l" "nd_width p' = nd_width (the (od_next_obs s k))"
      by blast
    with a show "\<exists>a p a' p'.
           od_obs s k = Some a \<and> length (nd_rows a) = ?m \<and> obs k = Some p \<and>
           length (nd_rows ((\<lambda>p. p) p)) = l \<and> nd_width ((\<lambda>p. p) p) = nd_width a \<and>
           od_next_obs s k = Some a' \<and> length (nd_rows a') = ?m \<and> nxt k = Some p' \<and>
           length (nd_rows ((\<lambda>p. p) p')) = l \<and> nd_width ((\<lambda>p. p) p') = nd_width a'"
      by simp
  qed
  have fit': "?t + l \<le> ?m" using fit by simp
  note wb = write_block_ok[where sel="\<lambda>p. p" and ops=ops, OF fit' len(1) len(2) la lt pre]
  have pa: "\<And>a v. length (nd_rows a) = ?m \<Longrightarrow> length (nd_rows v) = l \<Longrightarrow>
      stamp ops a ?t v = place_arr ops a ?t v"
    using fit by (simp add: stamp_plain)
  have e1: "stamp ops (od_actions s) ?t acts = place_arr ops (od_actions s) ?t acts"
    and e2: "stamp ops (od_terminals s) ?t terms = place_arr ops (od_terminals s) ?t terms"
    by (rule pa[OF len(1) la(1)], rule pa[OF len(2) lt(1)])
  have e3: "(\<lambda>k. if k \<in> set (od_keys s) then Some (stamp ops (the (od_obs s k)) ?t (the (obs k))) else od_obs s k)
      = (\<lambda>key. if key \<in> set (od_keys s) then Some (place_arr ops (the (od_obs s key)) ?t (the (obs key))) else od_obs s key)"
  proof (rule ext)
    fix k
    show "(if k \<in> set (od_keys s) then Some (stamp ops (the (od_obs s k)) ?t (the (obs k))) else od_obs s k)
      = (if k \<in> set (od_keys s) then Some (place_arr ops (the (od_obs s k)) ?t (the (obs k))) else od_obs s k)"
    proof (cases "k \<in> set (od_keys s)")
      case True
      with pre obtain a p where "od_obs s k = Some a" "length (nd_rows a) = ?m" "obs k = Some p"
        "length (nd_rows p) = l"
        by fastforce
      then show ?thesis by (simp add: pa)
    qed simp
  qed
  have e4: "(\<lambda>k. if k \<in> set (od_keys s) then Some (stamp ops (the (od_next_obs s k)) ?t (the (nxt k))) else od_next_obs s k)
      = (\<lambda>key. if key \<in> set (od_keys s) then Some (place_arr ops (the (od_next_obs s key)) ?t (the (nxt key))) else od_next_obs s key)"
  proof (rule ext)
    fix k
    show "(if k \<in> set (od_keys s) then Some (stamp ops (the (od_next_obs s k)) ?t (the (nxt k))) else od_next_obs s k)
      = (if k \<in> set (od_keys s) then Some (place_arr ops (the (od_next_obs s k)) ?t (the (nxt k))) else od_next_obs s k)"
    proof (cases "k \<in> set (od_keys s)")
      case True
      with pre obtain a p where "od_next_obs s k = Some a" "length (nd_rows a) = ?m" "nxt k = Some p"
        "length (nd_rows p) = l"
        by fastforce
      then show ?thesis by (simp add: pa)
    qed simp
  qed
  show ?thesis
    unfolding add_path_plain_def wb e1 e2 e3 e4
    using futures_plain[OF fit len(3)] by simp
qed

lemma add_path_wrap_eq:
  assumes sh: "od_shaped s" and t: "od_top s < od_max_size s" and lm: "l \<le> od_max_size s"
    and wrap: "od_max_size s \<le> od_top s + l"
    and la: "length (nd_rows acts) = l" "nd_width acts = nd_width (od_actions s)"
    and lt: "length (nd_rows terms) = l" "nd_width terms = nd_width (od_terminals s)"
    and rows: "\<forall>key\<in>set (od_keys s). \<exists>p p'.
        obs key = Some p \<and> length (nd_rows p) = l \<and> nd_width p = nd_width (the (od_obs s key)) \<and>
        nxt key = Some p' \<and> length (nd_rows p') = l \<and> nd_width p' = nd_width (the (od_next_obs s key))"
  shows "add_path_wrap ops l acts terms obs nxt s =
     Inr (s\<lparr>od_actions := place_arr ops (od_actions s) (od_top s) acts,
            od_terminals := place_arr ops (od_terminals s) (od_top s) terms,
            od_obs := \<lambda>key. if key \<in> set (od_keys s)
                        then Some (place_arr ops (the (od_obs s key)) (od_top s) (the (obs key))) else od_obs s key,
            od_next_obs := \<lambda>key. if key \<in> set (od_keys s)
                        then Some (place_arr ops (the (od_next_obs s key)) (od_top s) (the (nxt key))) else od_next_obs s key,
            od_idx_to_future_obs_idx :=
              futures_after (od_top s) (od_max_size s) l (od_idx_to_future_obs_idx s)\<rparr>)"
proof -
  let ?t = "od_top s" and ?m = "od_max_size s"
  let ?pre = "?m - ?t"
  let ?post = "l - ?pre"
  let ?sel1 = "\<lambda>p::'a ndarray. get_slice p 0 ?pre"
  let ?sel2 = "\<lambda>p::'a ndarray. get_slice p ?pre l"
  have len: "length (nd_rows (od_actions s)) = ?m" "length (nd_rows (od_terminals s)) = ?m"
    "length (od_idx_to_future_obs_idx s) = ?m"
    using sh by (simp_all add: od_shaped_def)
  have l1: "\<And>p::'a ndarray. length (nd_rows p) = l \<Longrightarrow> length (nd_rows (?sel1 p)) = ?pre"
    using wrap t by simp
  have l2: "\<And>p::'a ndarray. length (nd_rows p) = l \<Longrightarrow> length (nd_rows (?sel2 p)) = ?post"
    by simp
  have pw: "\<And>a v::'a ndarray. length (nd_rows a) = ?m \<Longrightarrow> length (nd_rows v) = l \<Longrightarrow>
      stamp ops (stamp ops a ?t (?sel1 v)) 0 (?sel2 v) = place_arr ops a ?t v"
    using stamp_wrap[OF _ _ t wrap] by blast
  have lo: "\<And>a v::'a ndarray. length (nd_rows a) = ?m \<Longrightarrow> length (nd_rows v) = l \<Longrightarrow>
      length (nd_rows (stamp ops a ?t (?sel1 v))) = ?m"
    using wrap t by (simp add: length_stamp)
  have fit1: "?t + ?pre \<le> ?m" using t by simp
  have fit2: "0 + ?post \<le> ?m" using lm by simp
  have both: "\<exists>a a' p p'. od_obs s k = Some a \<and> length (nd_rows a) = ?m \<and>
        od_next_obs s k = Some a' \<and> length (nd_rows a') = ?m \<and>
        obs k = Some p \<and> length (nd_rows p) = l \<and> nd_width p = nd_width a \<and>
        nxt k = Some p' \<and> length (nd_rows p') = l \<and> nd_width p' = nd_width a'"
    if k: "k \<in> set (od_keys s)" for k
  proof -
    from od_shaped_keys[OF sh k] obtain a a' where
      a: "od_obs s k = Some a" "length (nd_rows a) = ?m" "od_next_obs s k = Some a'" "length (nd_rows a') = ?m"
      by blast
    from rows k obtain p p' where
      "obs k = Some p" "length (nd_rows p) = l" "nd_width p = nd_width (the (od_obs s k))"
      "nxt k = Some p'" "length (nd_rows p') = l" "nd_width p' = nd_width (the (od_next_obs s k))"
      by blast
    with a show ?thesis by simp
  qed
  have pre1: "\<forall>k\<in>set (od_keys s). \<exists>a p a' p'.
           od_obs s k = Some a \<and> length (nd_rows a) = ?m \<and> obs k = Some p \<and>
           length (nd_rows (?sel1 p)) = ?pre \<and> nd_width (?sel1 p) = nd_width a \<and>
           od_next_obs s k = Some a' \<and> length (nd_rows a') = ?m \<and> nxt k = Some p' \<and>
           length (nd_rows (?sel1 p')) = ?pre \<and> nd_width (?sel1 p') = nd_width a'"
  proof
    fix k assume k: "k \<in> set (od_keys s)"
    from both[OF k] obtain a a' p p' where
      "od_obs s k = Some a" "length (nd_rows a) = ?m"
      "od_next_obs s k = Some a'" "length (nd_rows a') = ?m"
      "obs k = Some p" "length (nd_rows p) = l" "nd_width p = nd_width a"
      "nxt k = Some p'" "length (nd_rows p') = l" "nd_width p' = nd_width a'"
      by blast
    then show "\<exists>a p a' p'.
           od_obs s k = Some a \<and> length (nd_rows a) = ?m \<and> obs k = Some p \<and>
           length (nd_rows (?sel1 p)) = ?pre \<and> nd_width (?sel1 p) = nd_width a \<and>
           od_next_obs s k = Some a' \<and> length (nd_rows a') = ?m \<and> nxt k = Some p' \<and>
           length (nd_rows (?sel1 p')) = ?pre \<and> nd_width (?sel1 p') = nd_width a'"
      using l1 by simp
  qed
  let ?s1 = "s\<lparr>od_actions := stamp ops (od_actions s) ?t (?sel1 acts),
            od_terminals := stamp ops (od_terminals s) ?t (?sel1 terms),
            od_obs := \<lambda>k. if k \<in> set (od_keys s) then Some (stamp ops (the (od_obs s k)) ?t (?sel1 (the (obs k)))) else od_obs s k,
            od_next_obs := \<lambda>k. if k \<in> set (od_keys s) then Some (stamp ops (the (od_next_obs s k)) ?t (?sel1 (the (nxt k)))) else od_next_obs s k\<rparr>"
  have w1: "nd_width (?sel1 acts) = nd_width (od_actions s)" "nd_width (?sel1 terms) = nd_width (od_terminals s)"
    using la lt by simp_all
  have wb1: "write_block ops ?t (?t + ?pre) ?sel1 acts terms obs nxt s = Inr ?s1"
    by (rule write_block_ok[where sel="?sel1", OF fit1 len(1) len(2) l1[OF la(1)] w1(1) l1[OF lt(1)] w1(2) pre1])
  have k1: "od_keys ?s1 = od_keys s" by (simp add: od_keys_def)
  have pre2: "\<forall>k\<in>set (od_keys ?s1). \<exists>a p a' p'.
           od_obs ?s1 k = Some a \<and> length (nd_rows a) = ?m \<and> obs k = Some p \<and>
           length (nd_rows (?sel2 p)) = ?post \<and> nd_width (?sel2 p) = nd_width a \<and>
           od_next_obs ?s1 k = Some a' \<and> length (nd_rows a') = ?m \<and> nxt k = Some p' \<and>
           length (nd_rows (?sel2 p')) = ?post \<and> nd_width (?sel2 p') = nd_width a'"
    unfolding k1
  proof
    fix k assume k: "k \<in> set (od_keys s)"
    from both[OF k] obtain a a' p p' where
      a: "od_obs s k = Some a" "length (nd_rows a) = ?m"
      "od_next_obs s k = Some a'" "length (nd_rows a') = ?m"
      and p: "obs k = Some p" "length (nd_rows p) = l" "nd_width p = nd_width a"
      "nxt k = Some p'" "length (nd_rows p') = l" "nd_width p' = nd_width a'"
      by blast
    show "\<exists>a p a' p'.
           od_obs ?s1 k = Some a \<and> length (nd_rows a) = ?m \<and> obs k = Some p \<and>
           length (nd_rows (?sel2 p)) = ?post \<and> nd_width (?sel2 p) = nd_width a \<and>
           od_next_obs ?s1 k = Some a' \<and> length (nd_rows a') = ?m \<and> nxt k = Some p' \<and>
           length (nd_rows (?sel2 p')) = ?post \<and> nd_width (?sel2 p') = nd_width a'"
      using k a p l2[OF p(2)] l2[OF p(5)] lo[OF a(2) p(2)] lo[OF a(4) p(5)] by simp
  qed
  have len1: "length (nd_rows (od_actions ?s1)) = ?m" "length (nd_rows (od_terminals ?s1)) = ?m"
    using lo[OF len(1) la(1)] lo[OF len(2) lt(1)] by simp_all
  have w2: "nd_width (?sel2 acts) = nd_width (od_actions ?s1)" "nd_width (?sel2 terms) = nd_width (od_terminals ?s1)"
    using la lt by simp_all
  note wb2 = write_block_ok[where sel="?sel2" and s="?s1" and ops=ops,
      OF fit2 len1(1) len1(2) l2[OF la(1)] w2(1) l2[OF lt(1)] w2(2) pre2]
  have e3: "(\<lambda>k. if k \<in> set (od_keys s) then Some (stamp ops (the (od_obs ?s1 k)) 0 (?sel2 (the (obs k)))) else od_obs ?s1 k)
      = (\<lambda>key. if key \<in> set (od_keys s) then Some (place_arr ops (the (od_obs s key)) ?t (the (obs key))) else od_obs s key)"
  proof (rule ext)
    fix k
    show "(if k \<in> set (od_keys s) then Some (stamp ops (the (od_obs ?s1 k)) 0 (?sel2 (the (obs k)))) else od_obs ?s1 k)
      = (if k \<in> set (od_keys s) then Some (place_arr ops (the (od_obs s k)) ?t (the (obs k))) else od_obs s k)"
    proof (cases "k \<in> set (od_keys s)")
      case True
      from both[OF True] obtain a p where "od_obs s k = Some a" "length (nd_rows a) = ?m"
        "obs k = Some p" "length (nd_rows p) = l" by blast
      then show ?thesis using True pw[of a p] by simp
    qed simp
  qed
  have e4: "(\<lambda>k. if k \<in> set (od_keys s) then Some (stamp ops (the (od_next_obs ?s1 k)) 0 (?sel2 (the (nxt k)))) else od_next_obs ?s1 k)
      = (\<lambda>key. if key \<in> set (od_keys s) then Some (place_arr ops (the (od_next_obs s key)) ?t (the (nxt key))) else od_next_obs s key)"
  proof (rule ext)
    fix k
    show "(if k \<in> set (od_keys s) then Some (stamp ops (the (od_next_obs ?s1 k)) 0 (?sel2 (the (nxt k)))) else od_next_obs ?s1 k)
      = (if k \<in> set (od_keys s) then Some (place_arr ops (the (od_next_obs s k)) ?t (the (nxt k))) else od_next_obs s k)"
    proof (cases "k \<in> set (od_keys s)")
      case True
      from both[OF True] obtain a p where "od_next_obs s k = Some a" "length (nd_rows a) = ?m"
        "nxt k = Some p" "length (nd_rows p) = l" by blast
      then show ?thesis using True pw[of a p] by simp
    qed simp
  qed
  let ?s2 = "s\<lparr>od_actions := place_arr ops (od_actions s) ?t acts,
            od_terminals := place_arr ops (od_terminals s) ?t terms,
            od_obs := \<lambda>key. if key \<in> set (od_keys s)
                        then Some (place_arr ops (the (od_obs s key)) ?t (the (obs key))) else od_obs s key,
            od_next_obs := \<lambda>key. if key \<in> set (od_keys s)
                        then Some (place_arr ops (the (od_next_obs s key)) ?t (the (nxt key))) else od_next_obs s key\<rparr>"
  have wb2': "write_block ops 0 ?post ?sel2 acts terms obs nxt ?s1 = Inr ?s2"
    using wb2 unfolding k1 e3 e4
    by (simp add: pw[OF len(1) la(1)] pw[OF len(2) lt(1)])
  have fi: "od_idx_to_future_obs_idx ?s2 = od_idx_to_future_obs_idx s" by simp
  from futures_wrap[OF t lm wrap len(3)] obtain fut1 where
    f1: "store_futures [?t..<?m] (\<lambda>i. [i..<?m] @ [0..<?post]) (od_idx_to_future_obs_idx s) = Inr fut1"
    and f2: "store_futures [0..<?post] (\<lambda>i. [i..<?post]) fut1 =
       Inr (futures_after ?t ?m l (od_idx_to_future_obs_idx s))"
    by (cases "store_futures [?t..<?m] (\<lambda>i. [i..<?m] @ [0..<?post]) (od_idx_to_future_obs_idx s)") simp_all
  show ?thesis
    by (simp only: add_path_wrap_def Let_def wb1 sum.case wb2' fi f1 f2)
qed

text \<open>
  The buffer \<^verbatim>\<open>add_path\<close> leaves for a fitting path: the stored rows placed from
  \<^verbatim>\<open>_top\<close> on in every array, the index lists of the written rows, the pointer and the
  size.
\<close>

definition od_after :: "'x scalar_ops \<Rightarrow> 'x obs_dict_buffer \<Rightarrow> 'x path \<Rightarrow> 'x obs_dict_buffer" where
  "od_after ops s p =
     s\<lparr>od_actions := (od_actions s)\<lparr>nd_rows := place (nd_rows (od_actions s)) (od_top s) (stored_actions ops s p)\<rparr>,
       od_terminals := (od_terminals s)\<lparr>nd_rows := place (nd_rows (od_terminals s)) (od_top s) (stored_terminals ops s p)\<rparr>,
       od_obs := \<lambda>key. if key \<in> set (od_keys s)
          then Some ((the (od_obs s key))\<lparr>nd_rows :=
                  place (nd_rows (the (od_obs s key))) (od_top s)
                    (stored_rows ops (nd_dtype (the (od_obs s key))) (observations p) key)\<rparr>)
          else od_obs s key,
       od_next_obs := \<lambda>key. if key \<in> set (od_keys s)
          then Some ((the (od_next_obs s key))\<lparr>nd_rows :=
                  place (nd_rows (the (od_next_obs s key))) (od_top s)
                    (stored_rows ops (nd_dtype (the (od_next_obs s key))) (next_observations p) key)\<rparr>)
          else od_next_obs s key,
       od_idx_to_future_obs_idx :=
         futures_after (od_top s) (od_max_size s) (length (rewards p)) (od_idx_to_future_obs_idx s),
       od_top := (od_top s + length (rewards p)) mod od_max_size s,
       od_size := min (od_size s + length (rewards p)) (od_max_size s)\<rparr>"

lemma fit_row_exact: "length r = w \<Longrightarrow> fit_row ops src dst w r = map (cast ops src dst) r"
  by (simp add: fit_row_def)

lemma cast_rows_key:
  assumes kf: "key_fits (Some a) dicts key"
  shows "cast_rows ops a (unnormalized ops key (flat_key (nd_width a) dicts key)) =
     stored_rows ops (nd_dtype a) dicts key"
proof -
  from kf have all: "\<forall>d\<in>set dicts. \<exists>v. d key = Some v \<and> length (snd v) = nd_width a \<and>
      fst v = fst (the (hd dicts key))"
    by (rule key_fits_D) simp
  show ?thesis
  proof (cases "has_image key")
    case True
    have "map (fit_row ops UInt8 (nd_dtype a) (nd_width a))
            (map (map (unnormalize_entry ops (fst (the (hd dicts key))))) (map (\<lambda>d. snd (the (d key))) dicts))
        = map (\<lambda>d. map (cast ops UInt8 (nd_dtype a))
                 (map (unnormalize_entry ops (fst (the (d key)))) (snd (the (d key))))) dicts"
      using all by (auto simp: fit_row_exact)
    then show ?thesis
      using True by (simp add: cast_rows_def unnormalized_def flat_key_def stored_rows_def)
  next
    case False
    have "map (fit_row ops (fst (the (hd dicts key))) (nd_dtype a) (nd_width a)) (map (\<lambda>d. snd (the (d key))) dicts)
        = map (\<lambda>d. map (cast ops (fst (the (d key))) (nd_dtype a)) (snd (the (d key)))) dicts"
      using all by (auto simp: fit_row_exact)
    then show ?thesis
      using False by (simp add: cast_rows_def unnormalized_def flat_key_def stored_rows_def)
  qed
qed

lemma unnormalized_fields [simp]:
  "nd_width (unnormalized ops key a) = nd_width a"
  "length (nd_rows (unnormalized ops key a)) = length (nd_rows a)"
  by (simp_all add: unnormalized_def)

lemma flat_key_fields [simp]:
  "nd_width (flat_key w dicts key) = w" "length (nd_rows (flat_key w dicts key)) = length dicts"
  by (simp_all add: flat_key_def)

lemma path_actions_ok:
  assumes sh: "od_shaped s" and pf: "path_fits ops s p l" and l1: "1 \<le> l"
  shows "\<exists>acts0 acts. flatten_n ops (actions p) = Inr acts0 \<and>
     (if od_discrete s then one_hot ops (od_action_dim s) acts0 else Inr acts0) = Inr acts \<and>
     length (nd_rows acts) = l \<and> nd_width acts = nd_width (od_actions s) \<and>
     cast_rows ops (od_actions s) acts = stored_actions ops s p"
proof -
  let ?dt = "fst (hd (actions p))"
  have la: "length (actions p) = l" and ud: "list_all (\<lambda>a. fst a = ?dt) (actions p)"
    using pf by (simp_all add: path_fits_def)
  have ne: "actions p \<noteq> []" using la l1 by auto
  have wd: "nd_width (od_actions s) = od_action_dim s" using sh by (simp add: od_shaped_def)
  show ?thesis
  proof (cases "od_discrete s")
    case False
    have w: "0 < nd_width (od_actions s)"
      and aw: "list_all (\<lambda>a. length (snd a) = nd_width (od_actions s)) (actions p)"
      using pf False by (simp_all add: path_fits_def)
    have all: "list_all (\<lambda>x. length (snd x) = nd_width (od_actions s) \<and> fst x = ?dt) (actions p)"
      using ud aw by (simp add: list_all_iff)
    let ?a0 = "\<lparr>nd_dtype = ?dt, nd_width = nd_width (od_actions s), nd_rows = map snd (actions p)\<rparr>"
    have f: "flatten_n ops (actions p) = Inr ?a0" by (rule flatten_n_uniform[OF ne w all])
    have "map (fit_row ops ?dt (nd_dtype (od_actions s)) (nd_width (od_actions s))) (map snd (actions p))
        = map (\<lambda>a. map (cast ops (fst a) (nd_dtype (od_actions s))) (snd a)) (actions p)"
      using all by (auto simp: fit_row_exact list_all_iff)
    then have c: "cast_rows ops (od_actions s) ?a0 = stored_actions ops s p"
      using False by (simp add: cast_rows_def stored_actions_def)
    show ?thesis using f c False la by simp
  next
    case True
    let ?n = "od_action_dim s"
    have int: "is_integer ?dt"
      and aw: "list_all (\<lambda>a. length (snd a) = 1 \<and> - int ?n \<le> to_index ops (hd (snd a)) \<and>
                          to_index ops (hd (snd a)) < int ?n) (actions p)"
      using pf True by (simp_all add: path_fits_def)
    have all: "list_all (\<lambda>x. length (snd x) = 1 \<and> fst x = ?dt) (actions p)"
      using ud aw by (simp add: list_all_iff)
    let ?a0 = "\<lparr>nd_dtype = ?dt, nd_width = 1, nd_rows = map snd (actions p)\<rparr>"
    have f: "flatten_n ops (actions p) = Inr ?a0" by (rule flatten_n_uniform[OF ne _ all]) simp
    let ?eye = "\<lambda>r. map (\<lambda>j. if int j = to_index ops (hd r) mod int ?n
                                       then one_entry ops else zero_entry ops) [0..<?n]"
    let ?a1 = "\<lparr>nd_dtype = Float64, nd_width = ?n, nd_rows = map ?eye (nd_rows ?a0)\<rparr>"
    have oh: "one_hot ops ?n ?a0 = Inr ?a1"
      by (rule one_hot_ok) (use int aw in \<open>simp_all add: list_all_iff\<close>)
    have "map (fit_row ops Float64 (nd_dtype (od_actions s)) (nd_width (od_actions s))) (map ?eye (map snd (actions p)))
        = map (\<lambda>a. map (cast ops Float64 (nd_dtype (od_actions s))) (?eye (snd a))) (actions p)"
      using wd by (simp add: fit_row_exact)
    then have c: "cast_rows ops (od_actions s) ?a1 = stored_actions ops s p"
      using True by (simp add: cast_rows_def stored_actions_def)
    show ?thesis using f oh c True la wd by simp
  qed
qed

lemma cast_rows_terminals:
  assumes pf: "path_fits ops s p l"
  shows "cast_rows ops (od_terminals s) (terminals p) = stored_terminals ops s p"
proof -
  have "nd_width (terminals p) = nd_width (od_terminals s)"
    "list_all (\<lambda>r. length r = nd_width (terminals p)) (nd_rows (terminals p))"
    using pf unfolding path_fits_def by blast+
  then show ?thesis
    by (auto simp: cast_rows_def stored_terminals_def fit_row_exact list_all_iff)
qed

lemma place_arr_rows: "place_arr ops a t v = a\<lparr>nd_rows := place (nd_rows a) t (cast_rows ops a v)\<rparr>"
  by (simp add: place_arr_def)

lemma od_add_path_traced_eq:
  assumes sh: "od_shaped s" and t: "od_top s < od_max_size s"
    and pf: "path_fits ops s p l" and l1: "1 \<le> l" and lm: "l \<le> od_max_size s"
  shows "od_add_path_traced ops s p =
     Inr (if od_max_size s \<le> od_top s + l then Wrapped else Straight, od_after ops s p)"
proof -
  let ?keys = "od_keys s"
  have lens: "length (observations p) = l" "length (actions p) = l" "length (rewards p) = l"
    "length (next_observations p) = l" "length (nd_rows (terminals p)) = l"
    "nd_width (terminals p) = nd_width (od_terminals s)"
    using pf unfolding path_fits_def by blast+
  have ne: "observations p \<noteq> []" "next_observations p \<noteq> []"
    using lens l1 by auto
  have kf: "\<forall>key\<in>set ?keys. key_fits (od_obs s key) (observations p) key"
    and kf': "\<forall>key\<in>set ?keys. key_fits (od_next_obs s key) (next_observations p) key"
    using pf unfolding path_fits_def list_all_iff by blast+
  from path_actions_ok[OF sh pf l1] obtain acts0 acts where
    a: "flatten_n ops (actions p) = Inr acts0"
       "(if od_discrete s then one_hot ops (od_action_dim s) acts0 else Inr acts0) = Inr acts"
       "length (nd_rows acts) = l" "nd_width acts = nd_width (od_actions s)"
       "cast_rows ops (od_actions s) acts = stored_actions ops s p"
    by blast
  let ?obs = "\<lambda>key. if key \<in> set ?keys
                   then Some (unnormalized ops key (flat_key (nd_width (the (od_obs s key))) (observations p) key))
                   else None"
  let ?nxt = "\<lambda>key. if key \<in> set ?keys
                   then Some (unnormalized ops key (flat_key (nd_width (the (od_next_obs s key))) (next_observations p) key))
                   else None"
  from preprocess_flat[OF ne(1) kf, of ops] obtain obs0 where
    o: "flatten_dict ops (observations p) ?keys = Inr obs0" "preprocess_obs_dict ops ?keys obs0 = Inr ?obs"
    by blast
  from preprocess_flat[OF ne(2) kf', of ops] obtain nxt0 where
    n: "flatten_dict ops (next_observations p) ?keys = Inr nxt0" "preprocess_obs_dict ops ?keys nxt0 = Inr ?nxt"
    by blast
  have rows: "\<forall>key\<in>set ?keys. \<exists>q q'.
        ?obs key = Some q \<and> length (nd_rows q) = l \<and> nd_width q = nd_width (the (od_obs s key)) \<and>
        ?nxt key = Some q' \<and> length (nd_rows q') = l \<and> nd_width q' = nd_width (the (od_next_obs s key))"
    using lens by simp
  let ?mid = "s\<lparr>od_actions := place_arr ops (od_actions s) (od_top s) acts,
            od_terminals := place_arr ops (od_terminals s) (od_top s) (terminals p),
            od_obs := \<lambda>key. if key \<in> set ?keys
                        then Some (place_arr ops (the (od_obs s key)) (od_top s) (the (?obs key))) else od_obs s key,
            od_next_obs := \<lambda>key. if key \<in> set ?keys
                        then Some (place_arr ops (the (od_next_obs s key)) (od_top s) (the (?nxt key))) else od_next_obs s key,
            od_idx_to_future_obs_idx :=
              futures_after (od_top s) (od_max_size s) l (od_idx_to_future_obs_idx s)\<rparr>"
  let ?b = "if od_max_size s \<le> od_top s + l then Wrapped else Straight"
  have br: "(if od_max_size s \<le> od_top s + l
             then (case add_path_wrap ops l acts (terminals p) ?obs ?nxt s of
                     Inl e \<Rightarrow> Inl e | Inr s1 \<Rightarrow> Inr (Wrapped, s1))
             else (case add_path_plain ops l acts (terminals p) ?obs ?nxt s of
                     Inl e \<Rightarrow> Inl e | Inr s1 \<Rightarrow> Inr (Straight, s1))) = Inr (?b, ?mid)"
  proof (cases "od_max_size s \<le> od_top s + l")
    case True
    then show ?thesis
      using add_path_wrap_eq[OF sh t lm True a(3,4) lens(5,6) rows] by simp
  next
    case False
    then have "od_top s + l < od_max_size s" by simp
    from add_path_plain_eq[OF sh this a(3,4) lens(5,6) rows] False show ?thesis by simp
  qed
  have e1: "(\<lambda>key. if key \<in> set ?keys
                        then Some (place_arr ops (the (od_obs s key)) (od_top s) (the (?obs key))) else od_obs s key)
      = (\<lambda>key. if key \<in> set (od_keys s)
          then Some ((the (od_obs s key))\<lparr>nd_rows :=
                  place (nd_rows (the (od_obs s key))) (od_top s)
                    (stored_rows ops (nd_dtype (the (od_obs s key))) (observations p) key)\<rparr>)
          else od_obs s key)"
  proof (rule ext)
    fix key
    show "(if key \<in> set ?keys
                        then Some (place_arr ops (the (od_obs s key)) (od_top s) (the (?obs key))) else od_obs s key)
      = (if key \<in> set (od_keys s)
          then Some ((the (od_obs s key))\<lparr>nd_rows :=
                  place (nd_rows (the (od_obs s key))) (od_top s)
                    (stored_rows ops (nd_dtype (the (od_obs s key))) (observations p) key)\<rparr>)
          else od_obs s key)"
    proof (cases "key \<in> set ?keys")
      case True
      from od_shaped_keys[OF sh True] obtain a where a: "od_obs s key = Some a" by blast
      from kf True a have "key_fits (Some a) (observations p) key" by auto
      from cast_rows_key[OF this, of ops] show ?thesis
        using True a by (simp add: place_arr_rows)
    qed simp
  qed
  have e2: "(\<lambda>key. if key \<in> set ?keys
                        then Some (place_arr ops (the (od_next_obs s key)) (od_top s) (the (?nxt key))) else od_next_obs s key)
      = (\<lambda>key. if key \<in> set (od_keys s)
          then Some ((the (od_next_obs s key))\<lparr>nd_rows :=
                  place (nd_rows (the (od_next_obs s key))) (od_top s)
                    (stored_rows ops (nd_dtype (the (od_next_obs s key))) (next_observations p) key)\<rparr>)
          else od_next_obs s key)"
  proof (rule ext)
    fix key
    show "(if key \<in> set ?keys
                        then Some (place_arr ops (the (od_next_obs s key)) (od_top s) (the (?nxt key))) else od_next_obs s key)
      = (if key \<in> set (od_keys s)
          then Some ((the (od_next_obs s key))\<lparr>nd_rows :=
                  place (nd_rows (the (od_next_obs s key))) (od_top s)
                    (stored_rows ops (nd_dtype (the (od_next_obs s key))) (next_observations p) key)\<rparr>)
          else od_next_obs s key)"
    proof (cases "key \<in> set ?keys")
      case True
      from od_shaped_keys[OF sh True] obtain a where a: "od_next_obs s key = Some a" by blast
      from kf' True a have "key_fits (Some a) (next_observations p) key" by auto
      from cast_rows_key[OF this, of ops] show ?thesis
        using True a by (simp add: place_arr_rows)
    qed simp
  qed
  have m0: "od_max_size s \<noteq> 0" using t by simp
  have "od_add_path_traced ops s p =
      Inr (?b, ?mid\<lparr>od_top := (od_top s + l) mod od_max_size s,
                 od_size := min (od_size s + l) (od_max_size s)\<rparr>)"
    by (simp only: od_add_path_traced_def Let_def a(1) a(2) sum.case o n lens(3) br m0 if_False prod.case)
  also have "?mid\<lparr>od_top := (od_top s + l) mod od_max_size s,
                 od_size := min (od_size s + l) (od_max_size s)\<rparr> = od_after ops s p"
    unfolding od_after_def e1 e2 lens(3)
    by (simp add: place_arr_rows a(5) cast_rows_terminals[OF pf])
  finally show ?thesis .
qed

lemma od_add_path_eq:
  assumes "od_shaped s" "od_top s < od_max_size s" "path_fits ops s p l" "1 \<le> l" "l \<le> od_max_size s"
  shows "od_add_path ops s p = Inr (od_after ops s p)"
  by (simp add: od_add_path_def od_add_path_traced_eq[OF assms])

lemma nth_futures_after:
  "i < m \<Longrightarrow> futures_after t m l fut ! i =
     (if (i + m - t) mod m < l then Some (drop ((i + m - t) mod m) (written_slots t m l)) else fut ! i)"
  by (simp add: futures_after_def)

lemma od_after_obs:
  "key \<in> set (od_keys s) \<Longrightarrow>
   od_obs (od_after ops s p) key =
     Some ((the (od_obs s key))\<lparr>nd_rows :=
        place (nd_rows (the (od_obs s key))) (od_top s)
          (stored_rows ops (nd_dtype (the (od_obs s key))) (observations p) key)\<rparr>)"
  "key \<in> set (od_keys s) \<Longrightarrow>
   od_next_obs (od_after ops s p) key =
     Some ((the (od_next_obs s key))\<lparr>nd_rows :=
        place (nd_rows (the (od_next_obs s key))) (od_top s)
          (stored_rows ops (nd_dtype (the (od_next_obs s key))) (next_observations p) key)\<rparr>)"
  by (simp_all add: od_after_def)

lemma length_stored:
  "length (stored_actions ops s p) = length (actions p)"
  "length (stored_terminals ops s p) = length (nd_rows (terminals p))"
  "length (stored_rows ops dst dicts key) = length dicts"
  by (simp_all add: stored_actions_def stored_terminals_def stored_rows_def)

lemma place_put:
  assumes "t < m" "l \<le> m" "length a = m" "length vs = l" "j < l"
  shows "place a t vs ! ((t + j) mod m) = vs ! j"
proof -
  have jm: "j < m" using assms by simp
  have "(t + j) mod m < length a" using assms by simp
  then show ?thesis
    using nth_place[of t a vs "(t + j) mod m"] assms slot_step[OF assms(1) jm] by simp
qed

lemma place_keep:
  assumes "t < m" "l \<le> m" "length a = m" "length vs = l" "i < m" "\<forall>j<l. i \<noteq> (t + j) mod m"
  shows "place a t vs ! i = a ! i"
proof -
  have "\<not> (i + m - t) mod m < l"
  proof
    assume h: "(i + m - t) mod m < l"
    have "i = (t + (i + m - t) mod m) mod m" using step_slot[OF assms(1,5)] by simp
    with h assms(6) show False by blast
  qed
  then show ?thesis using nth_place[of t a vs i] assms by simp
qed

text \<open>
  Claim C1. For a buffer of the constructor's shape with \<open>_top < max_size\<close> and a
  fitting path of \<open>l\<close> transitions, \<open>1 \<le> l \<le> max_size\<close>, \<^verbatim>\<open>add_path\<close> returns.
  The branch of line 117 runs exactly when \<open>max_size \<le> _top + l\<close>. Afterwards
  \<^verbatim>\<open>_top\<close> is \<open>(_top + l) mod max_size\<close> and \<^verbatim>\<open>_size\<close> is
  \<open>min (_size + l) max_size\<close>; step \<open>j\<close> of the path (action, terminal, observation
  and next observation under every saved key) is in row \<open>(_top + j) mod max_size\<close>, that
  is in rows \<open>_top, _top + 1, ...\<close> continuing at row 0; every other row is as
  before.
\<close>

theorem od_add_path_wraparound:
  assumes sh: "od_shaped s" and t: "od_top s < od_max_size s"
    and pf: "path_fits ops s p l" and l1: "1 \<le> l" and lm: "l \<le> od_max_size s"
  shows "\<exists>b s'. od_add_path_traced ops s p = Inr (b, s') \<and> od_add_path ops s p = Inr s' \<and>
     (b = Wrapped \<longleftrightarrow> od_max_size s \<le> od_top s + l) \<and>
     od_top s' = (od_top s + l) mod od_max_size s \<and>
     od_size s' = min (od_size s + l) (od_max_size s) \<and>
     (\<forall>j<l. nd_rows (od_actions s') ! ((od_top s + j) mod od_max_size s) = stored_actions ops s p ! j \<and>
            nd_rows (od_terminals s') ! ((od_top s + j) mod od_max_size s) = stored_terminals ops s p ! j \<and>
            (\<forall>key\<in>set (od_keys s).
               nd_rows (the (od_obs s' key)) ! ((od_top s + j) mod od_max_size s) =
                 stored_rows ops (nd_dtype (the (od_obs s key))) (observations p) key ! j \<and>
               nd_rows (the (od_next_obs s' key)) ! ((od_top s + j) mod od_max_size s) =
                 stored_rows ops (nd_dtype (the (od_next_obs s key))) (next_observations p) key ! j)) \<and>
     (\<forall>i<od_max_size s. (\<forall>j<l. i \<noteq> (od_top s + j) mod od_max_size s) \<longrightarrow>
            nd_rows (od_actions s') ! i = nd_rows (od_actions s) ! i \<and>
            nd_rows (od_terminals s') ! i = nd_rows (od_terminals s) ! i \<and>
            (\<forall>key\<in>set (od_keys s).
               nd_rows (the (od_obs s' key)) ! i = nd_rows (the (od_obs s key)) ! i \<and>
               nd_rows (the (od_next_obs s' key)) ! i = nd_rows (the (od_next_obs s key)) ! i))"
proof -
  let ?t = "od_top s" and ?m = "od_max_size s" and ?s' = "od_after ops s p"
  let ?b = "if ?m \<le> ?t + l then Wrapped else Straight"
  have lens: "length (observations p) = l" "length (actions p) = l" "length (rewards p) = l"
    "length (next_observations p) = l" "length (nd_rows (terminals p)) = l"
    using pf unfolding path_fits_def by blast+
  have len: "length (nd_rows (od_actions s)) = ?m" "length (nd_rows (od_terminals s)) = ?m"
    using sh by (simp_all add: od_shaped_def)
  have run: "od_add_path_traced ops s p = Inr (?b, ?s')" by (rule od_add_path_traced_eq[OF sh t pf l1 lm])
  have run': "od_add_path ops s p = Inr ?s'" by (rule od_add_path_eq[OF sh t pf l1 lm])
  have tag: "?b = Wrapped \<longleftrightarrow> ?m \<le> ?t + l" by simp
  have pt: "od_top ?s' = (?t + l) mod ?m" "od_size ?s' = min (od_size s + l) ?m"
    by (simp_all add: od_after_def lens)
  note put = place_put[OF t lm] and keep = place_keep[OF t lm]
  have written: "nd_rows (od_actions ?s') ! ((?t + j) mod ?m) = stored_actions ops s p ! j \<and>
            nd_rows (od_terminals ?s') ! ((?t + j) mod ?m) = stored_terminals ops s p ! j \<and>
            (\<forall>key\<in>set (od_keys s).
               nd_rows (the (od_obs ?s' key)) ! ((?t + j) mod ?m) =
                 stored_rows ops (nd_dtype (the (od_obs s key))) (observations p) key ! j \<and>
               nd_rows (the (od_next_obs ?s' key)) ! ((?t + j) mod ?m) =
                 stored_rows ops (nd_dtype (the (od_next_obs s key))) (next_observations p) key ! j)"
    if j: "j < l" for j
  proof (intro conjI ballI)
    show "nd_rows (od_actions ?s') ! ((?t + j) mod ?m) = stored_actions ops s p ! j"
      using put[OF len(1) _ j, of "stored_actions ops s p"] lens by (simp add: od_after_def length_stored)
    show "nd_rows (od_terminals ?s') ! ((?t + j) mod ?m) = stored_terminals ops s p ! j"
      using put[OF len(2) _ j, of "stored_terminals ops s p"] lens by (simp add: od_after_def length_stored)
  next
    fix key assume k: "key \<in> set (od_keys s)"
    from od_shaped_keys[OF sh k] obtain a a' where
      a: "od_obs s key = Some a" "length (nd_rows a) = ?m"
         "od_next_obs s key = Some a'" "length (nd_rows a') = ?m" by blast
    show "nd_rows (the (od_obs ?s' key)) ! ((?t + j) mod ?m) =
        stored_rows ops (nd_dtype (the (od_obs s key))) (observations p) key ! j"
      using put[OF a(2) _ j, of "stored_rows ops (nd_dtype a) (observations p) key"] lens a
      by (simp add: od_after_obs[OF k] length_stored)
    show "nd_rows (the (od_next_obs ?s' key)) ! ((?t + j) mod ?m) =
        stored_rows ops (nd_dtype (the (od_next_obs s key))) (next_observations p) key ! j"
      using put[OF a(4) _ j, of "stored_rows ops (nd_dtype a') (next_observations p) key"] lens a
      by (simp add: od_after_obs[OF k] length_stored)
  qed
  have frame: "nd_rows (od_actions ?s') ! i = nd_rows (od_actions s) ! i \<and>
            nd_rows (od_terminals ?s') ! i = nd_rows (od_terminals s) ! i \<and>
            (\<forall>key\<in>set (od_keys s).
               nd_rows (the (od_obs ?s' key)) ! i = nd_rows (the (od_obs s key)) ! i \<and>
               nd_rows (the (od_next_obs ?s' key)) ! i = nd_rows (the (od_next_obs s key)) ! i)"
    if i: "i < ?m" "\<forall>j<l. i \<noteq> (?t + j) mod ?m" for i
  proof (intro conjI ballI)
    show "nd_rows (od_actions ?s') ! i = nd_rows (od_actions s) ! i"
      using keep[OF len(1) _ i, of "stored_actions ops s p"] lens by (simp add: od_after_def length_stored)
    show "nd_rows (od_terminals ?s') ! i = nd_rows (od_terminals s) ! i"
      using keep[OF len(2) _ i, of "stored_terminals ops s p"] lens by (simp add: od_after_def length_stored)
  next
    fix key assume k: "key \<in> set (od_keys s)"
    from od_shaped_keys[OF sh k] obtain a a' where
      a: "od_obs s key = Some a" "length (nd_rows a) = ?m"
         "od_next_obs s key = Some a'" "length (nd_rows a') = ?m" by blast
    show "nd_rows (the (od_obs ?s' key)) ! i = nd_rows (the (od_obs s key)) ! i"
      using keep[OF a(2) _ i, of "stored_rows ops (nd_dtype a) (observations p) key"] lens a
      by (simp add: od_after_obs[OF k] length_stored)
    show "nd_rows (the (od_next_obs ?s' key)) ! i = nd_rows (the (od_next_obs s key)) ! i"
      using keep[OF a(4) _ i, of "stored_rows ops (nd_dtype a') (next_observations p) key"] lens a
      by (simp add: od_after_obs[OF k] length_stored)
  qed
  show ?thesis
    using run run' tag pt written frame by blast
qed

subsection \<open>A buffer of three rows and a path of two transitions\<close>

text \<open>
  Entries are natural numbers here and every conversion keeps the entry. The buffer holds a
  first path in rows 0 and 1 and its pointer is at row 2, so a path of two transitions
  wraps.
\<close>

definition ex_ops :: "nat scalar_ops" where
  "ex_ops = \<lparr>cast = (\<lambda>src dst x. x), zero_entry = 0, one_entry = 1, to_index = int,
             unnormalize_entry = (\<lambda>src x. x * 255), normalize_entry = (\<lambda>x. x div 255)\<rparr>"

definition ex_keys :: "string list" where
  "ex_keys = [''observation'', ''desired_goal'', ''achieved_goal'']"

definition ex_array :: "dtype \<Rightarrow> nat list list \<Rightarrow> nat ndarray" where
  "ex_array dt rows = \<lparr>nd_dtype = dt, nd_width = 1, nd_rows = rows\<rparr>"

definition ex_buffer :: "nat obs_dict_buffer" where
  "ex_buffer =
     \<lparr>od_max_size = 3, od_discrete = False, od_action_dim = 1,
      od_fraction_goals_rollout_goals = 1, od_fraction_goals_env_goals = 0,
      od_ob_keys_to_save = ex_keys, od_internal_keys = [], od_goal_keys = [''desired_goal''],
      od_observation_key = ''observation'', od_desired_goal_key = ''desired_goal'',
      od_achieved_goal_key = ''achieved_goal'',
      od_actions = ex_array Float64 [[10], [11], [0]],
      od_terminals = ex_array UInt8 [[0], [1], [0]],
      od_obs = (\<lambda>key. if key \<in> set ex_keys then Some (ex_array Float32 [[30], [31], [0]]) else None),
      od_next_obs = (\<lambda>key. if key \<in> set ex_keys then Some (ex_array Float32 [[31], [32], [0]]) else None),
      od_top = 2, od_size = 2,
      od_idx_to_future_obs_idx = [Some [0, 1], Some [1], None]\<rparr>"

definition ex_path :: "nat path" where
  "ex_path =
     \<lparr>observations = [(\<lambda>key. if key \<in> set ex_keys then Some (Float64, [40]) else None),
                      (\<lambda>key. if key \<in> set ex_keys then Some (Float64, [41]) else None)],
      actions = [(Float64, [20]), (Float64, [21])],
      rewards = [(Float64, [0]), (Float64, [0])],
      next_observations = [(\<lambda>key. if key \<in> set ex_keys then Some (Float64, [41]) else None),
                           (\<lambda>key. if key \<in> set ex_keys then Some (Float64, [42]) else None)],
      terminals = ex_array UInt8 [[0], [1]]\<rparr>"

lemma ex_has_image: "\<not> has_image ''observation''" "\<not> has_image ''desired_goal''" "\<not> has_image ''achieved_goal''"
  by (simp_all add: has_image_def sublist_Cons_right prefix_def)

lemma ex_buffer_shaped: "od_shaped ex_buffer"
  by (simp add: od_shaped_def ex_buffer_def od_keys_def ex_keys_def ex_array_def)

lemma ex_path_fits: "path_fits ex_ops ex_buffer ex_path 2"
  by (simp add: path_fits_def key_fits_def ex_buffer_def od_keys_def ex_keys_def ex_path_def
      ex_array_def ex_has_image)

text \<open>
  The path goes to rows 2 and 0, row 1 keeps the older action, the pointer ends at 1 and
  the buffer is full.
\<close>

theorem od_add_path_wraparound_witness:
  "od_shaped ex_buffer \<and> od_top ex_buffer < od_max_size ex_buffer \<and>
   path_fits ex_ops ex_buffer ex_path 2 \<and>
   (\<exists>s'. od_add_path_traced ex_ops ex_buffer ex_path = Inr (Wrapped, s') \<and>
      od_top s' = 1 \<and> od_size s' = 3 \<and>
      nd_rows (od_actions s') ! 2 = [20] \<and> nd_rows (od_actions s') ! 0 = [21] \<and>
      nd_rows (od_actions s') ! 1 = [11] \<and>
      nd_rows (the (od_next_obs s' ''achieved_goal'')) ! 0 = [42])"
proof -
  have t: "od_top ex_buffer < od_max_size ex_buffer" by (simp add: ex_buffer_def)
  have l: "(1::nat) \<le> 2" "2 \<le> od_max_size ex_buffer" by (simp_all add: ex_buffer_def)
  from od_add_path_wraparound[OF ex_buffer_shaped t ex_path_fits l]
  obtain b s' where s': "od_add_path_traced ex_ops ex_buffer ex_path = Inr (b, s')"
    and tag: "b = Wrapped \<longleftrightarrow> od_max_size ex_buffer \<le> od_top ex_buffer + 2"
    and top: "od_top s' = (od_top ex_buffer + 2) mod od_max_size ex_buffer"
    and sz: "od_size s' = min (od_size ex_buffer + 2) (od_max_size ex_buffer)"
    and wr: "\<forall>j<2. nd_rows (od_actions s') ! ((od_top ex_buffer + j) mod od_max_size ex_buffer) =
                     stored_actions ex_ops ex_buffer ex_path ! j \<and>
            nd_rows (od_terminals s') ! ((od_top ex_buffer + j) mod od_max_size ex_buffer) =
                     stored_terminals ex_ops ex_buffer ex_path ! j \<and>
            (\<forall>key\<in>set (od_keys ex_buffer).
               nd_rows (the (od_obs s' key)) ! ((od_top ex_buffer + j) mod od_max_size ex_buffer) =
                 stored_rows ex_ops (nd_dtype (the (od_obs ex_buffer key))) (observations ex_path) key ! j \<and>
               nd_rows (the (od_next_obs s' key)) ! ((od_top ex_buffer + j) mod od_max_size ex_buffer) =
                 stored_rows ex_ops (nd_dtype (the (od_next_obs ex_buffer key))) (next_observations ex_path) key ! j)"
    and fr: "\<forall>i<od_max_size ex_buffer. (\<forall>j<2. i \<noteq> (od_top ex_buffer + j) mod od_max_size ex_buffer) \<longrightarrow>
            nd_rows (od_actions s') ! i = nd_rows (od_actions ex_buffer) ! i \<and>
            nd_rows (od_terminals s') ! i = nd_rows (od_terminals ex_buffer) ! i \<and>
            (\<forall>key\<in>set (od_keys ex_buffer).
               nd_rows (the (od_obs s' key)) ! i = nd_rows (the (od_obs ex_buffer key)) ! i \<and>
               nd_rows (the (od_next_obs s' key)) ! i = nd_rows (the (od_next_obs ex_buffer key)) ! i)"
    by blast
  have b: "b = Wrapped" using tag by (simp add: ex_buffer_def)
  have a2: "nd_rows (od_actions s') ! 2 = [20]"
    using wr[rule_format, of 0] by (simp add: ex_buffer_def stored_actions_def ex_path_def ex_ops_def)
  have a0: "nd_rows (od_actions s') ! 0 = [21]"
    using wr[rule_format, of 1] by (simp add: ex_buffer_def stored_actions_def ex_path_def ex_ops_def)
  have free: "\<forall>j<2. (1::nat) \<noteq> (od_top ex_buffer + j) mod od_max_size ex_buffer"
    by (auto simp: ex_buffer_def less_Suc_eq numeral_2_eq_2)
  have a1: "nd_rows (od_actions s') ! 1 = [11]"
    using fr[rule_format, of 1] free by (simp add: ex_buffer_def ex_array_def)
  have k: "''achieved_goal'' \<in> set (od_keys ex_buffer)"
    by (simp add: ex_buffer_def od_keys_def ex_keys_def)
  have "\<forall>key\<in>set (od_keys ex_buffer).
               nd_rows (the (od_next_obs s' key)) ! ((od_top ex_buffer + 1) mod od_max_size ex_buffer) =
                 stored_rows ex_ops (nd_dtype (the (od_next_obs ex_buffer key))) (next_observations ex_path) key ! 1"
    using wr[rule_format, of 1] by simp
  from this[rule_format, OF k] have n0: "nd_rows (the (od_next_obs s' ''achieved_goal'')) ! 0 = [42]"
    by (simp add: ex_buffer_def stored_rows_def ex_path_def ex_has_image ex_keys_def ex_ops_def)
  show ?thesis
    using ex_buffer_shaped t ex_path_fits s' b top sz a2 a0 a1 n0
    by (simp add: ex_buffer_def)
qed

text \<open>
  Paths that do not fit raise, as in the source: a row of two entries for an array of one
  column (\<^verbatim>\<open>ValueError\<close> at the slice assignment), a discrete action outside
  \<open>[-n, n)\<close> (\<^verbatim>\<open>IndexError\<close> at \<^verbatim>\<open>np.eye(n)[actions]\<close>), an image of bytes
  (\<^verbatim>\<open>AssertionError\<close> in \<^verbatim>\<open>unnormalize_image\<close>).
\<close>

lemma ex_flatten_obs:
  "flatten_dict ex_ops (observations ex_path) (od_keys ex_buffer) =
     Inr (\<lambda>key. if key \<in> set ex_keys then Some \<lparr>nd_dtype = Float64, nd_width = 1, nd_rows = [[40], [41]]\<rparr> else None)"
  by (simp add: ex_path_def ex_buffer_def od_keys_def ex_keys_def flatten_n_def fun_eq_iff)

lemma od_add_path_wide_row:
  "od_add_path ex_ops ex_buffer (ex_path\<lparr>actions := [(Float64, [20, 0]), (Float64, [21, 0])]\<rparr>) = Inl ValueError"
  by (simp add: od_add_path_def od_add_path_traced_def flatten_n_def ex_path_def ex_buffer_def
      od_keys_def ex_keys_def preprocess_obs_dict_def ex_has_image add_path_wrap_def write_block_def
      assign_slice_def ex_array_def get_slice_def Let_def)

lemma od_add_path_discrete_out_of_range:
  "od_add_path ex_ops (ex_buffer\<lparr>od_discrete := True\<rparr>)
     (ex_path\<lparr>actions := [(Int64, [0]), (Int64, [1])]\<rparr>) = Inl IndexError"
  by (simp add: od_add_path_def od_add_path_traced_def flatten_n_def ex_path_def ex_buffer_def
      one_hot_def is_integer_def eye_row_def ex_ops_def Let_def)

definition ex_image_buffer :: "nat obs_dict_buffer" where
  "ex_image_buffer =
     ex_buffer\<lparr>od_internal_keys := [''image_observation''],
       od_obs := (\<lambda>key. if key \<in> set (''image_observation'' # ex_keys) then Some (ex_array Float32 [[30], [31], [0]]) else None),
       od_next_obs := (\<lambda>key. if key \<in> set (''image_observation'' # ex_keys) then Some (ex_array Float32 [[31], [32], [0]]) else None)\<rparr>"

definition ex_image_path :: "nat path" where
  "ex_image_path =
     ex_path\<lparr>observations := [(\<lambda>key. if key \<in> set (''image_observation'' # ex_keys) then Some (UInt8, [40]) else None),
                      (\<lambda>key. if key \<in> set (''image_observation'' # ex_keys) then Some (UInt8, [41]) else None)],
       next_observations := [(\<lambda>key. if key \<in> set (''image_observation'' # ex_keys) then Some (UInt8, [41]) else None),
                      (\<lambda>key. if key \<in> set (''image_observation'' # ex_keys) then Some (UInt8, [42]) else None)]\<rparr>"

lemma ex_image_key: "has_image ''image_observation''"
  by (simp add: has_image_def sublist_def) (rule exI[of _ "[]"], simp)

lemma od_add_path_uint8_image:
  "od_add_path ex_ops ex_image_buffer ex_image_path = Inl AssertionError"
  by (simp add: od_add_path_def od_add_path_traced_def flatten_n_def ex_path_def ex_buffer_def
      ex_image_buffer_def ex_image_path_def od_keys_def ex_keys_def preprocess_obs_dict_def
      ex_has_image ex_image_key unnormalize_image_def Let_def)

text \<open>
  Claim C2. Under the hypotheses of C1, after \<^verbatim>\<open>add_path\<close> the list
  \<^verbatim>\<open>_idx_to_future_obs_idx[i]\<close> of the row \<open>i = (_top + j) mod max_size\<close> written for
  step \<open>j\<close> is the rows of steps \<open>j, ..., l - 1\<close> in write order. When the
  wrapping branch ran (exactly when \<open>max_size \<le> _top + l\<close>), a row \<open>i\<close> from
  \<^verbatim>\<open>_top\<close> up has \<open>[i..<max_size] @ [0..<num_post_wrap_steps]\<close> and a row
  \<open>i < num_post_wrap_steps\<close> has \<open>[i..<num_post_wrap_steps]\<close>; when the other branch
  ran, row \<open>i\<close> has \<open>[i..<_top + l]\<close>. Every such list is not empty, starts with
  \<open>i\<close> and so contains it.
\<close>

theorem od_add_path_future_idx:
  assumes sh: "od_shaped s" and t: "od_top s < od_max_size s"
    and pf: "path_fits ops s p l" and l1: "1 \<le> l" and lm: "l \<le> od_max_size s"
  shows "\<exists>b s'. od_add_path_traced ops s p = Inr (b, s') \<and> od_add_path ops s p = Inr s' \<and>
     (b = Wrapped \<longleftrightarrow> od_max_size s \<le> od_top s + l) \<and>
     (\<forall>j<l. od_idx_to_future_obs_idx s' ! ((od_top s + j) mod od_max_size s) =
              Some (map (\<lambda>n. (od_top s + n) mod od_max_size s) [j..<l])) \<and>
     (b = Wrapped \<longrightarrow>
        (\<forall>i. od_top s \<le> i \<and> i < od_max_size s \<longrightarrow>
           od_idx_to_future_obs_idx s' ! i =
             Some ([i..<od_max_size s] @ [0..<l - (od_max_size s - od_top s)])) \<and>
        (\<forall>i<l - (od_max_size s - od_top s).
           od_idx_to_future_obs_idx s' ! i = Some [i..<l - (od_max_size s - od_top s)])) \<and>
     (b = Straight \<longrightarrow>
        (\<forall>i. od_top s \<le> i \<and> i < od_top s + l \<longrightarrow>
           od_idx_to_future_obs_idx s' ! i = Some [i..<od_top s + l])) \<and>
     (\<forall>j<l. \<exists>fs. od_idx_to_future_obs_idx s' ! ((od_top s + j) mod od_max_size s) = Some fs \<and>
        fs \<noteq> [] \<and> hd fs = (od_top s + j) mod od_max_size s \<and>
        (od_top s + j) mod od_max_size s \<in> set fs)"
proof -
  let ?t = "od_top s" and ?m = "od_max_size s" and ?s' = "od_after ops s p"
  let ?ws = "written_slots ?t ?m l"
  let ?fut = "od_idx_to_future_obs_idx ?s'"
  let ?b = "if ?m \<le> ?t + l then Wrapped else Straight"
  have lr: "length (rewards p) = l" using pf unfolding path_fits_def by blast
  have run: "od_add_path_traced ops s p = Inr (?b, ?s')" by (rule od_add_path_traced_eq[OF sh t pf l1 lm])
  have run': "od_add_path ops s p = Inr ?s'" by (rule od_add_path_eq[OF sh t pf l1 lm])
  have tag: "?b = Wrapped \<longleftrightarrow> ?m \<le> ?t + l" by simp
  have fut: "?fut = futures_after ?t ?m l (od_idx_to_future_obs_idx s)"
    by (simp add: od_after_def lr)
  have wsm: "?ws = map (\<lambda>j. (?t + j) mod ?m) [0..<l]" by (rule written_slots_map[OF t lm])
  have at: "?fut ! i = Some (drop ((i + ?m - ?t) mod ?m) ?ws)"
    if "i < ?m" "(i + ?m - ?t) mod ?m < l" for i
    using that by (simp add: fut nth_futures_after)
  have byj: "?fut ! ((?t + j) mod ?m) = Some (map (\<lambda>n. (?t + n) mod ?m) [j..<l])" if j: "j < l" for j
  proof -
    have jm: "j < ?m" using j lm by simp
    have i: "(?t + j) mod ?m < ?m" using t by simp
    have st: "((?t + j) mod ?m + ?m - ?t) mod ?m = j" by (rule slot_step[OF t jm])
    have "?fut ! ((?t + j) mod ?m) = Some (drop j ?ws)"
      using at[OF i] st j by simp
    also have "drop j ?ws = map (\<lambda>n. (?t + n) mod ?m) [j..<l]"
      unfolding wsm by (simp add: drop_map)
    finally show ?thesis .
  qed
  have wrapped: "(\<forall>i. ?t \<le> i \<and> i < ?m \<longrightarrow> ?fut ! i = Some ([i..<?m] @ [0..<l - (?m - ?t)])) \<and>
        (\<forall>i<l - (?m - ?t). ?fut ! i = Some [i..<l - (?m - ?t)])"
    if w: "?b = Wrapped"
  proof (intro conjI allI impI)
    have w': "?m \<le> ?t + l" using w by (simp split: if_splits)
    have ws: "?ws = [?t..<?m] @ [0..<l - (?m - ?t)]" using w' by (simp add: written_slots_def)
    fix i assume i: "?t \<le> i \<and> i < ?m"
    then have st: "(i + ?m - ?t) mod ?m = i - ?t" using step_of_slot[OF t, of i] by simp
    have "i - ?t < l" using i w' by arith
    then have "?fut ! i = Some (drop (i - ?t) ?ws)" using at[of i] i st by simp
    also have "drop (i - ?t) ?ws = [i..<?m] @ [0..<l - (?m - ?t)]"
      using i unfolding ws by simp
    finally show "?fut ! i = Some ([i..<?m] @ [0..<l - (?m - ?t)])" .
  next
    have w': "?m \<le> ?t + l" using w by (simp split: if_splits)
    have ws: "?ws = [?t..<?m] @ [0..<l - (?m - ?t)]" using w' by (simp add: written_slots_def)
    fix i assume i: "i < l - (?m - ?t)"
    then have it: "i < ?t" "i < ?m" using lm t by simp_all
    then have st: "(i + ?m - ?t) mod ?m = i + ?m - ?t" using step_of_slot[OF t, of i] by simp
    have "i + ?m - ?t < l" using i it by arith
    then have "?fut ! i = Some (drop (i + ?m - ?t) ?ws)" using at[of i] it st by simp
    also have "drop (i + ?m - ?t) ?ws = [i..<l - (?m - ?t)]"
    proof -
      have "i + ?m - ?t - (?m - ?t) = i" using t by arith
      moreover have "?m - ?t \<le> i + ?m - ?t" by arith
      ultimately show ?thesis unfolding ws by simp
    qed
    finally show "?fut ! i = Some [i..<l - (?m - ?t)]" .
  qed
  have plain: "\<forall>i. ?t \<le> i \<and> i < ?t + l \<longrightarrow> ?fut ! i = Some [i..<?t + l]"
    if w: "?b = Straight"
  proof (intro allI impI)
    have w': "?t + l < ?m" using w by (simp split: if_splits)
    have ws: "?ws = [?t..<?t + l]" using w' by (simp add: written_slots_def)
    fix i assume i: "?t \<le> i \<and> i < ?t + l"
    then have im: "i < ?m" using w' by simp
    have st: "(i + ?m - ?t) mod ?m = i - ?t" using step_of_slot[OF t im] i by simp
    have "i - ?t < l" using i by arith
    then have "?fut ! i = Some (drop (i - ?t) ?ws)" using at[OF im] st by simp
    also have "drop (i - ?t) ?ws = [i..<?t + l]" using i unfolding ws by simp
    finally show "?fut ! i = Some [i..<?t + l]" .
  qed
  have nonempty: "\<exists>fs. ?fut ! ((?t + j) mod ?m) = Some fs \<and> fs \<noteq> [] \<and> hd fs = (?t + j) mod ?m \<and>
      (?t + j) mod ?m \<in> set fs"
    if j: "j < l" for j
  proof -
    have "[j..<l] = j # [Suc j..<l]" using j by (simp add: upt_conv_Cons)
    then have "map (\<lambda>n. (?t + n) mod ?m) [j..<l] = (?t + j) mod ?m # map (\<lambda>n. (?t + n) mod ?m) [Suc j..<l]"
      by simp
    then show ?thesis using byj[OF j] by simp
  qed
  show ?thesis
    using run run' tag byj wrapped plain nonempty by blast
qed

text \<open>
  In the buffer of three rows the wrapping branch runs: row 2 gets the list 2, 0 and row 0
  the list 0.
\<close>

theorem od_add_path_future_idx_witness:
  "od_shaped ex_buffer \<and> od_top ex_buffer < od_max_size ex_buffer \<and>
   path_fits ex_ops ex_buffer ex_path 2 \<and>
   (\<exists>s'. od_add_path_traced ex_ops ex_buffer ex_path = Inr (Wrapped, s') \<and>
      od_add_path ex_ops ex_buffer ex_path = Inr s' \<and>
      od_idx_to_future_obs_idx s' ! 2 = Some [2, 0] \<and>
      od_idx_to_future_obs_idx s' ! 0 = Some [0])"
proof -
  have t: "od_top ex_buffer < od_max_size ex_buffer" by (simp add: ex_buffer_def)
  have l: "(1::nat) \<le> 2" "2 \<le> od_max_size ex_buffer" by (simp_all add: ex_buffer_def)
  from od_add_path_future_idx[OF ex_buffer_shaped t ex_path_fits l]
  obtain b s' where s': "od_add_path_traced ex_ops ex_buffer ex_path = Inr (b, s')"
    and s'': "od_add_path ex_ops ex_buffer ex_path = Inr s'"
    and tag: "b = Wrapped \<longleftrightarrow> od_max_size ex_buffer \<le> od_top ex_buffer + 2"
    and w: "b = Wrapped \<longrightarrow>
        (\<forall>i. od_top ex_buffer \<le> i \<and> i < od_max_size ex_buffer \<longrightarrow>
           od_idx_to_future_obs_idx s' ! i =
             Some ([i..<od_max_size ex_buffer] @ [0..<2 - (od_max_size ex_buffer - od_top ex_buffer)])) \<and>
        (\<forall>i<2 - (od_max_size ex_buffer - od_top ex_buffer).
           od_idx_to_future_obs_idx s' ! i = Some [i..<2 - (od_max_size ex_buffer - od_top ex_buffer)])"
    by blast
  have b: "b = Wrapped"
    using tag by (simp add: ex_buffer_def)
  have u: "[2..<3] = [2::nat]" "[0..<Suc 0] = [0::nat]" by (simp_all add: upt_rec)
  have f2: "od_idx_to_future_obs_idx s' ! 2 = Some [2, 0]"
    using w[rule_format, OF b, THEN conjunct1, rule_format, of 2] by (simp add: ex_buffer_def u)
  have f0: "od_idx_to_future_obs_idx s' ! 0 = Some [0]"
    using w[rule_format, OF b, THEN conjunct2, rule_format, of 0] by (simp add: ex_buffer_def u)
  show ?thesis using ex_buffer_shaped t ex_path_fits s' s'' b f2 f0 by blast
qed

section \<open>Python floats\<close>

text \<open>
  The fractions of the constructors are Python floats, IEEE doubles: a real number stands
  for the double of that value (infinities and NaN are no real numbers). The sum of two
  floats is the exact sum rounded to the nearest double, ties to the even significand:
  \<open>double_exponent\<close> is the binary exponent of the value, no smaller than that of the
  subnormal doubles, and the doubles around the value are the multiples of 2 to that
  exponent minus 52. A sum beyond the largest double is infinite in Python and stays finite
  here; both compare alike with 0 and 1. An infinite fraction or a NaN fails one of the
  assertions of the constructors in the source.
\<close>

definition round_half_even :: "real \<Rightarrow> int" where
  "round_half_even y =
     (let f = \<lfloor>y\<rfloor> in
      if y - of_int f < 1 / 2 then f
      else if 1 / 2 < y - of_int f then f + 1
      else if even f then f else f + 1)"

definition double_exponent :: "real \<Rightarrow> int" where
  "double_exponent x = max \<lfloor>log 2 \<bar>x\<bar>\<rfloor> (- 1022)"

definition round_double :: "real \<Rightarrow> real" where
  "round_double x =
     (if x = 0 then 0
      else of_int (round_half_even (x / 2 powi (double_exponent x - 52))) * 2 powi (double_exponent x - 52))"

definition float_add :: "real \<Rightarrow> real \<Rightarrow> real" where
  "float_add x y = round_double (x + y)"

lemma round_half_even_nonneg: "0 \<le> y \<Longrightarrow> 0 \<le> round_half_even y"
  by (simp add: round_half_even_def Let_def)

lemma round_half_even_le:
  assumes "y \<le> of_int n"
  shows "round_half_even y \<le> n"
proof -
  have f: "\<lfloor>y\<rfloor> \<le> n" using assms by (simp add: floor_le_iff)
  show ?thesis
  proof (cases "\<lfloor>y\<rfloor> = n")
    case True
    then have "of_int n \<le> y" using of_int_floor_le[of y] by simp
    then have "y = of_int n" using assms by simp
    then show ?thesis by (simp add: round_half_even_def)
  next
    case False
    then have "\<lfloor>y\<rfloor> + 1 \<le> n" using f by simp
    then show ?thesis by (auto simp: round_half_even_def Let_def)
  qed
qed

lemma round_half_even_of_int [simp]: "round_half_even (of_int n) = n"
  by (simp add: round_half_even_def)

lemma round_double_nonneg: "0 \<le> x \<Longrightarrow> 0 \<le> round_double x"
  by (simp add: round_double_def round_half_even_nonneg)

lemma round_double_le_one:
  assumes "x \<le> 1"
  shows "round_double x \<le> 1"
proof (cases "x \<le> 0")
  case True
  show ?thesis
  proof (cases "x = 0")
    case False
    let ?u = "(2::real) powi (double_exponent x - 52)"
    have u: "0 < ?u" by simp
    have "x / ?u \<le> of_int 0" using True u by (simp add: divide_nonpos_pos)
    then have "round_half_even (x / ?u) \<le> 0" by (rule round_half_even_le)
    then have "of_int (round_half_even (x / ?u)) * ?u \<le> 0"
      using u by (simp add: mult_le_0_iff)
    then show ?thesis using False by (simp add: round_double_def)
  qed (simp add: round_double_def)
next
  case False
  then have pos: "0 < x" by simp
  let ?e = "double_exponent x"
  let ?u = "(2::real) powi (?e - 52)"
  have "log 2 x \<le> 0" using pos assms by simp
  then have "\<lfloor>log 2 \<bar>x\<bar>\<rfloor> \<le> 0" using pos by (simp add: floor_le_iff)
  then have e: "?e \<le> 0" by (simp add: double_exponent_def)
  define n where "n = nat (52 - ?e)"
  have u: "?u = inverse (2 ^ n)"
    using e unfolding n_def by (simp add: power_int_def power_divide inverse_eq_divide)
  have upos: "0 < ?u" by simp
  have "x / ?u = x * 2 ^ n" by (simp add: u field_simps)
  also have "\<dots> \<le> 2 ^ n" using assms by simp
  finally have "x / ?u \<le> of_int (2 ^ n)" by simp
  then have "round_half_even (x / ?u) \<le> 2 ^ n" by (rule round_half_even_le)
  then have "(of_int (round_half_even (x / ?u)) :: real) \<le> 2 ^ n"
    by (metis of_int_le_iff of_int_numeral of_int_power)
  then have "of_int (round_half_even (x / ?u)) * ?u \<le> 2 ^ n * ?u"
    using upos by (simp add: mult_right_mono)
  also have "2 ^ n * ?u = 1" by (simp add: u)
  finally show ?thesis using pos by (simp add: round_double_def)
qed

lemma double_exponent_unit:
  assumes "1 \<le> x" "x < 2"
  shows "double_exponent x = 0"
proof -
  have "\<lfloor>log 2 x\<rfloor> = 0"
    using assms by (subst floor_log_eq_powr_iff) simp_all
  then show ?thesis using assms by (simp add: double_exponent_def)
qed

lemma round_double_unit:
  assumes "1 \<le> x" "x < 2"
  shows "round_double x = of_int (round_half_even (x * 2 ^ 52)) / 2 ^ 52"
proof -
  have e: "double_exponent x = 0" by (rule double_exponent_unit[OF assms])
  have u: "(2::real) powi (0 - 52) = inverse (2 ^ 52)" by (simp add: power_int_minus)
  have "x \<noteq> 0" using assms by simp
  then show ?thesis
    unfolding round_double_def e u by (simp add: field_simps)
qed

lemma round_double_one: "round_double 1 = 1"
proof -
  have "round_half_even (1 * 2 ^ 52) = 2 ^ 52"
    using round_half_even_of_int[of "2 ^ 52"] by simp
  then show ?thesis using round_double_unit[of 1] by simp
qed

lemma float_add_tie: "float_add (1 / 2) (1 / 2 + 1 / 2 ^ 53) = 1"
proof -
  have "round_half_even ((1 / 2 + (1 / 2 + 1 / 2 ^ 53)) * 2 ^ 52) = 2 ^ 52"
    by (simp add: round_half_even_def Let_def)
  then show ?thesis
    using round_double_unit[of "1 / 2 + (1 / 2 + 1 / 2 ^ 53)"] by (simp add: float_add_def)
qed

section \<open>Construction\<close>

text \<open>
  What the constructors read of the environment: its observation space and its action
  space. A \<^verbatim>\<open>Dict\<close> space maps a key to the size of that entry (\<^verbatim>\<open>spaces[key].low.size\<close>),
  a \<^verbatim>\<open>Discrete\<close> space has \<^verbatim>\<open>n\<close> actions, any other space (a box) has the size of its
  \<^verbatim>\<open>low\<close>.
\<close>

datatype space = Dict "string \<rightharpoonup> nat" | Discrete nat | Box nat

record gym_env =
  observation_space :: space
  action_space :: space

text \<open>
  Lines 60-63: \<^verbatim>\<open>env.action_space.n\<close> for a discrete space, \<^verbatim>\<open>env.action_space.low.size\<close>
  otherwise; a \<^verbatim>\<open>Dict\<close> space has no \<^verbatim>\<open>low\<close>.
\<close>

definition action_dim_of :: "space \<Rightarrow> py_error + nat" where
  "action_dim_of sp = (case sp of Discrete n \<Rightarrow> Inr n | Box d \<Rightarrow> Inr d | Dict _ \<Rightarrow> Inl AttributeError)"

definition is_discrete :: "space \<Rightarrow> bool" where
  "is_discrete sp = (case sp of Discrete _ \<Rightarrow> True | _ \<Rightarrow> False)"

text \<open>
  Lines 38-42: \<^verbatim>\<open>goal_keys\<close> defaults to the empty list and always holds the desired goal
  key.
\<close>

definition goal_keys_of :: "string list option \<Rightarrow> string \<Rightarrow> string list" where
  "goal_keys_of goal_keys desired_goal_key =
     (let gs = (case goal_keys of None \<Rightarrow> [] | Some ks \<Rightarrow> ks) in
      if desired_goal_key \<notin> set gs then gs @ [desired_goal_key] else gs)"

text \<open>
  The four assertions on the fractions (lines 44-47, 363-366 and 597-600), in their order;
  the sums are sums of floats.
\<close>

definition assert_fractions :: "real \<Rightarrow> real \<Rightarrow> py_error + unit" where
  "assert_fractions fraction_goals_rollout_goals fraction_goals_env_goals =
     (if \<not> 0 \<le> fraction_goals_rollout_goals then Inl AssertionError
      else if \<not> 0 \<le> fraction_goals_env_goals then Inl AssertionError
      else if \<not> 0 \<le> float_add fraction_goals_rollout_goals fraction_goals_env_goals then Inl AssertionError
      else if \<not> float_add fraction_goals_rollout_goals fraction_goals_env_goals \<le> 1 then Inl AssertionError
      else Inr ())"

text \<open>
  The loop of lines 72-82: every saved key must be a key of the observation space, and gets
  two arrays of \<^verbatim>\<open>max_size\<close> rows of zeros, of bytes when the key starts with
  \<^verbatim>\<open>image\<close> and of \<^verbatim>\<open>float32\<close> otherwise.
\<close>

definition zeros :: "'x scalar_ops \<Rightarrow> dtype \<Rightarrow> nat \<Rightarrow> nat \<Rightarrow> 'x ndarray" where
  "zeros ops dt n d = \<lparr>nd_dtype = dt, nd_width = d, nd_rows = replicate n (replicate d (zero_entry ops))\<rparr>"

fun init_keys ::
  "'x scalar_ops \<Rightarrow> nat \<Rightarrow> (string \<rightharpoonup> nat) \<Rightarrow> string list \<Rightarrow> (string \<rightharpoonup> 'x ndarray) \<Rightarrow> (string \<rightharpoonup> 'x ndarray)
   \<Rightarrow> py_error + (string \<rightharpoonup> 'x ndarray) \<times> (string \<rightharpoonup> 'x ndarray)" where
  "init_keys ops n ob_spaces [] obs nxt = Inr (obs, nxt)"
| "init_keys ops n ob_spaces (key # keys) obs nxt =
     (case ob_spaces key of
        None \<Rightarrow> Inl AssertionError
      | Some d \<Rightarrow>
          (let type = (if prefix ''image'' key then UInt8 else Float32) in
           init_keys ops n ob_spaces keys
             (obs(key \<mapsto> zeros ops type n d)) (nxt(key \<mapsto> zeros ops type n d))))"

text \<open>
  \<^verbatim>\<open>ObsDictRelabelingBuffer.__init__\<close> after its assertions (lines 48-89). \<^verbatim>\<open>max_size\<close> is
  the integer the caller passes: \<^verbatim>\<open>np.zeros\<close> raises \<^verbatim>\<open>ValueError\<close> for a negative one.
\<close>

definition od_build ::
  "'x scalar_ops \<Rightarrow> int \<Rightarrow> gym_env \<Rightarrow> (string \<rightharpoonup> nat) \<Rightarrow> real \<Rightarrow> real \<Rightarrow> string list \<Rightarrow> string list
   \<Rightarrow> string \<Rightarrow> string \<Rightarrow> string \<Rightarrow> py_error + 'x obs_dict_buffer" where
  "od_build ops max_size env ob_spaces fraction_goals_rollout_goals fraction_goals_env_goals
     internal_keys goal_keys observation_key desired_goal_key achieved_goal_key =
     (case action_dim_of (action_space env) of
        Inl e \<Rightarrow> Inl e
      | Inr action_dim \<Rightarrow>
          if max_size < 0 then Inl ValueError
          else
            (let n = nat max_size;
                 ob_keys_to_save = [observation_key, desired_goal_key, achieved_goal_key] in
             case init_keys ops n ob_spaces (ob_keys_to_save @ internal_keys) Map.empty Map.empty of
               Inl e \<Rightarrow> Inl e
             | Inr (obs, nxt) \<Rightarrow>
                 Inr \<lparr>od_max_size = n,
                      od_discrete = is_discrete (action_space env),
                      od_action_dim = action_dim,
                      od_fraction_goals_rollout_goals = fraction_goals_rollout_goals,
                      od_fraction_goals_env_goals = fraction_goals_env_goals,
                      od_ob_keys_to_save = ob_keys_to_save,
                      od_internal_keys = internal_keys,
                      od_goal_keys = goal_keys,
                      od_observation_key = observation_key,
                      od_desired_goal_key = desired_goal_key,
                      od_achieved_goal_key = achieved_goal_key,
                      od_actions = zeros ops Float64 n action_dim,
                      od_terminals = zeros ops UInt8 n 1,
                      od_obs = obs,
                      od_next_obs = nxt,
                      od_top = 0,
                      od_size = 0,
                      od_idx_to_future_obs_idx = replicate n None\<rparr>))"

text \<open>
  \<^verbatim>\<open>ObsDictRelabelingBuffer.__init__\<close> (lines 23-89): the defaults of the key lists, the
  assertion that the observation space is a \<^verbatim>\<open>Dict\<close>, the assertions on the fractions, then
  the arrays.
\<close>

definition od_init ::
  "'x scalar_ops \<Rightarrow> int \<Rightarrow> gym_env \<Rightarrow> real \<Rightarrow> real \<Rightarrow> string list option \<Rightarrow> string list option
   \<Rightarrow> string \<Rightarrow> string \<Rightarrow> string \<Rightarrow> py_error + 'x obs_dict_buffer" where
  "od_init ops max_size env fraction_goals_rollout_goals fraction_goals_env_goals
     internal_keys goal_keys observation_key desired_goal_key achieved_goal_key =
     (let internal_keys = (case internal_keys of None \<Rightarrow> [] | Some ks \<Rightarrow> ks);
          goal_keys = goal_keys_of goal_keys desired_goal_key in
      case observation_space env of
        Dict ob_spaces \<Rightarrow>
          (case assert_fractions fraction_goals_rollout_goals fraction_goals_env_goals of
             Inl e \<Rightarrow> Inl e
           | Inr _ \<Rightarrow>
               od_build ops max_size env ob_spaces fraction_goals_rollout_goals fraction_goals_env_goals
                 internal_keys goal_keys observation_key desired_goal_key achieved_goal_key)
      | _ \<Rightarrow> Inl AssertionError)"

section \<open>imgObsDictRelabelingBuffer and newstateObsDictRelabelingBuffer\<close>

text \<open>
  The two other classes keep one flat observation array; their rows are vectors of numbers,
  since \<^verbatim>\<open>add_path\<close> concatenates them and a row store checks their length. The two classes
  have the same attributes (the \<^verbatim>\<open>img\<close> class has no \<^verbatim>\<open>_idx_to_future_obs_idx\<close>, which
  is left empty for it) and the same \<^verbatim>\<open>_advance\<close> and \<^verbatim>\<open>random_batch\<close>, so one record
  is the state of both. \<^verbatim>\<open>k\<close> is the number of goals \<^verbatim>\<open>np.random.choice\<close> draws, a natural
  number.
\<close>

type_synonym vec = "real list"

record relabel_buffer =
  rb_max_size :: nat
  rb_k :: nat
  rb_t_fn :: "(vec \<Rightarrow> vec) option"
  rb_discrete :: bool
  rb_action_dim :: nat
  rb_fraction_goals_rollout_goals :: real
  rb_fraction_goals_env_goals :: real
  rb_ob_keys_to_save :: "string list"
  rb_internal_keys :: "string list"
  rb_goal_keys :: "string list"
  rb_observation_key :: string
  rb_desired_goal_key :: string
  rb_achieved_goal_key :: string
  rb_actions :: "vec list"
  rb_terminals :: "vec list"
  rb_rewards :: "vec list"
  rb_obs :: "vec list"
  rb_next_obs :: "vec list"
  rb_top :: nat
  rb_size :: nat
  rb_idx_to_future_obs_idx :: "nat list option list"

text \<open>
  Both constructors after their assertions (lines 367-400 and 601-632). \<open>extra\<close> is the 3
  that the \<^verbatim>\<open>newstate\<close> class adds to the width of an observation row; \<open>has_idx\<close> says
  whether the class has \<^verbatim>\<open>_idx_to_future_obs_idx\<close>. The width is read at the literal key
  \<^verbatim>\<open>"observation"\<close>. The call \<^verbatim>\<open>rerendering_env.reset()\<close> of the \<^verbatim>\<open>img\<close> class touches
  no attribute of the buffer.
\<close>

definition rb_build ::
  "nat \<Rightarrow> bool \<Rightarrow> int \<Rightarrow> gym_env \<Rightarrow> (string \<rightharpoonup> nat) \<Rightarrow> nat \<Rightarrow> real \<Rightarrow> real \<Rightarrow> string list \<Rightarrow> string list
   \<Rightarrow> string \<Rightarrow> string \<Rightarrow> string \<Rightarrow> (vec \<Rightarrow> vec) option \<Rightarrow> py_error + relabel_buffer" where
  "rb_build extra has_idx max_size env ob_spaces k fraction_goals_rollout_goals fraction_goals_env_goals
     internal_keys goal_keys observation_key desired_goal_key achieved_goal_key t_fn =
     (case action_dim_of (action_space env) of
        Inl e \<Rightarrow> Inl e
      | Inr action_dim \<Rightarrow>
          if max_size < 0 then Inl ValueError
          else
            (let n = nat max_size in
             case ob_spaces ''observation'' of
               None \<Rightarrow> Inl KeyError
             | Some d \<Rightarrow>
                 Inr \<lparr>rb_max_size = n,
                      rb_k = k,
                      rb_t_fn = t_fn,
                      rb_discrete = is_discrete (action_space env),
                      rb_action_dim = action_dim,
                      rb_fraction_goals_rollout_goals = fraction_goals_rollout_goals,
                      rb_fraction_goals_env_goals = fraction_goals_env_goals,
                      rb_ob_keys_to_save =
                        [observation_key, desired_goal_key, achieved_goal_key, ''save_state''],
                      rb_internal_keys = internal_keys,
                      rb_goal_keys = goal_keys,
                      rb_observation_key = observation_key,
                      rb_desired_goal_key = desired_goal_key,
                      rb_achieved_goal_key = achieved_goal_key,
                      rb_actions = replicate n (replicate action_dim 0),
                      rb_terminals = replicate n [0],
                      rb_rewards = replicate n [0],
                      rb_obs = replicate n (replicate (d + extra) 0),
                      rb_next_obs = replicate n (replicate (d + extra) 0),
                      rb_top = 0,
                      rb_size = 0,
                      rb_idx_to_future_obs_idx = (if has_idx then replicate n None else [])\<rparr>))"

text \<open>
\<^verbatim>\<open>imgObsDictRelabelingBuffer.__init__\<close> (lines 337-400).
\<close>

definition img_init ::
  "int \<Rightarrow> gym_env \<Rightarrow> nat \<Rightarrow> real \<Rightarrow> real \<Rightarrow> string list option \<Rightarrow> string list option
   \<Rightarrow> string \<Rightarrow> string \<Rightarrow> string \<Rightarrow> (vec \<Rightarrow> vec) option \<Rightarrow> py_error + relabel_buffer" where
  "img_init max_size env k fraction_goals_rollout_goals fraction_goals_env_goals
     internal_keys goal_keys observation_key desired_goal_key achieved_goal_key t_fn =
     (let internal_keys = (case internal_keys of None \<Rightarrow> [] | Some ks \<Rightarrow> ks);
          goal_keys = goal_keys_of goal_keys desired_goal_key in
      case observation_space env of
        Dict ob_spaces \<Rightarrow>
          (case assert_fractions fraction_goals_rollout_goals fraction_goals_env_goals of
             Inl e \<Rightarrow> Inl e
           | Inr _ \<Rightarrow>
               rb_build 0 False max_size env ob_spaces k fraction_goals_rollout_goals fraction_goals_env_goals
                 internal_keys goal_keys observation_key desired_goal_key achieved_goal_key t_fn)
      | _ \<Rightarrow> Inl AssertionError)"

text \<open>
\<^verbatim>\<open>newstateObsDictRelabelingBuffer.__init__\<close> (lines 572-632).
\<close>

definition ns_init ::
  "int \<Rightarrow> gym_env \<Rightarrow> nat \<Rightarrow> real \<Rightarrow> real \<Rightarrow> string list option \<Rightarrow> string list option
   \<Rightarrow> string \<Rightarrow> string \<Rightarrow> string \<Rightarrow> (vec \<Rightarrow> vec) option \<Rightarrow> py_error + relabel_buffer" where
  "ns_init max_size env k fraction_goals_rollout_goals fraction_goals_env_goals
     internal_keys goal_keys observation_key desired_goal_key achieved_goal_key t_fn =
     (let internal_keys = (case internal_keys of None \<Rightarrow> [] | Some ks \<Rightarrow> ks);
          goal_keys = goal_keys_of goal_keys desired_goal_key in
      case observation_space env of
        Dict ob_spaces \<Rightarrow>
          (case assert_fractions fraction_goals_rollout_goals fraction_goals_env_goals of
             Inl e \<Rightarrow> Inl e
           | Inr _ \<Rightarrow>
               rb_build 3 True max_size env ob_spaces k fraction_goals_rollout_goals fraction_goals_env_goals
                 internal_keys goal_keys observation_key desired_goal_key achieved_goal_key t_fn)
      | _ \<Rightarrow> Inl AssertionError)"

section \<open>The assertions of the constructors\<close>

text \<open>
  Claim C7. In each of the three constructors, when one of \<^verbatim>\<open>0 <= fraction_goals_rollout_goals\<close>,
  \<^verbatim>\<open>0 <= fraction_goals_env_goals\<close> and
  \<^verbatim>\<open>fraction_goals_rollout_goals + fraction_goals_env_goals <= 1\<close> is false, with the sum
  as Python computes it, construction raises \<^verbatim>\<open>AssertionError\<close>. When all three are true, the
  assertions on the fractions pass and, the observation space being a \<^verbatim>\<open>Dict\<close>, construction
  goes on to build the arrays. Fractions whose exact sum is at most 1 have a float sum that
  is at most 1. The defaults 1.0 and 0.0 pass.
\<close>

theorem init_fraction_assertions:
  "(\<not> (0 \<le> f_r \<and> 0 \<le> f_e \<and> float_add f_r f_e \<le> 1) \<longrightarrow>
      od_init ops max_size env f_r f_e internal_keys goal_keys ok dk ak = Inl AssertionError \<and>
      img_init max_size env k f_r f_e internal_keys goal_keys ok dk ak t_fn = Inl AssertionError \<and>
      ns_init max_size env k f_r f_e internal_keys goal_keys ok dk ak t_fn = Inl AssertionError) \<and>
   (0 \<le> f_r \<and> 0 \<le> f_e \<and> float_add f_r f_e \<le> 1 \<longrightarrow>
      assert_fractions f_r f_e = Inr () \<and>
      (\<forall>ob_spaces. observation_space env = Dict ob_spaces \<longrightarrow>
         od_init ops max_size env f_r f_e internal_keys goal_keys ok dk ak =
           od_build ops max_size env ob_spaces f_r f_e
             (case internal_keys of None \<Rightarrow> [] | Some ks \<Rightarrow> ks) (goal_keys_of goal_keys dk) ok dk ak \<and>
         img_init max_size env k f_r f_e internal_keys goal_keys ok dk ak t_fn =
           rb_build 0 False max_size env ob_spaces k f_r f_e
             (case internal_keys of None \<Rightarrow> [] | Some ks \<Rightarrow> ks) (goal_keys_of goal_keys dk) ok dk ak t_fn \<and>
         ns_init max_size env k f_r f_e internal_keys goal_keys ok dk ak t_fn =
           rb_build 3 True max_size env ob_spaces k f_r f_e
             (case internal_keys of None \<Rightarrow> [] | Some ks \<Rightarrow> ks) (goal_keys_of goal_keys dk) ok dk ak t_fn)) \<and>
   (0 \<le> f_r \<and> 0 \<le> f_e \<and> f_r + f_e \<le> 1 \<longrightarrow> float_add f_r f_e \<le> 1) \<and>
   float_add 1 0 = 1 \<and> assert_fractions 1 0 = Inr ()"
proof (intro conjI impI allI)
  assume v: "\<not> (0 \<le> f_r \<and> 0 \<le> f_e \<and> float_add f_r f_e \<le> 1)"
  then have a: "assert_fractions f_r f_e = Inl AssertionError"
    by (auto simp: assert_fractions_def)
  show "od_init ops max_size env f_r f_e internal_keys goal_keys ok dk ak = Inl AssertionError"
    by (cases "observation_space env") (simp_all add: od_init_def a)
  show "img_init max_size env k f_r f_e internal_keys goal_keys ok dk ak t_fn = Inl AssertionError"
    by (cases "observation_space env") (simp_all add: img_init_def a)
  show "ns_init max_size env k f_r f_e internal_keys goal_keys ok dk ak t_fn = Inl AssertionError"
    by (cases "observation_space env") (simp_all add: ns_init_def a)
next
  assume h: "0 \<le> f_r \<and> 0 \<le> f_e \<and> float_add f_r f_e \<le> 1"
  then have "0 \<le> float_add f_r f_e"
    unfolding float_add_def by (intro round_double_nonneg) simp
  with h show a: "assert_fractions f_r f_e = Inr ()"
    by (simp add: assert_fractions_def)
  fix ob_spaces assume d: "observation_space env = Dict ob_spaces"
  show "od_init ops max_size env f_r f_e internal_keys goal_keys ok dk ak =
           od_build ops max_size env ob_spaces f_r f_e
             (case internal_keys of None \<Rightarrow> [] | Some ks \<Rightarrow> ks) (goal_keys_of goal_keys dk) ok dk ak"
    by (simp add: od_init_def a d)
  show "img_init max_size env k f_r f_e internal_keys goal_keys ok dk ak t_fn =
           rb_build 0 False max_size env ob_spaces k f_r f_e
             (case internal_keys of None \<Rightarrow> [] | Some ks \<Rightarrow> ks) (goal_keys_of goal_keys dk) ok dk ak t_fn"
    by (simp add: img_init_def a d)
  show "ns_init max_size env k f_r f_e internal_keys goal_keys ok dk ak t_fn =
           rb_build 3 True max_size env ob_spaces k f_r f_e
             (case internal_keys of None \<Rightarrow> [] | Some ks \<Rightarrow> ks) (goal_keys_of goal_keys dk) ok dk ak t_fn"
    by (simp add: ns_init_def a d)
next
  assume "0 \<le> f_r \<and> 0 \<le> f_e \<and> f_r + f_e \<le> 1"
  then show "float_add f_r f_e \<le> 1"
    unfolding float_add_def by (intro round_double_le_one) simp
next
  show o: "float_add 1 0 = 1" by (simp add: float_add_def round_double_one)
  have "0 \<le> float_add 1 0" using o by simp
  then show "assert_fractions 1 0 = Inr ()" using o by (simp add: assert_fractions_def)
qed

text \<open>
  An environment with the three default keys and a box action space.
\<close>

definition ex_env :: gym_env where
  "ex_env = \<lparr>observation_space = Dict (\<lambda>key. if key \<in> set ex_keys then Some 1 else None),
              action_space = Box 1\<rparr>"

text \<open>
  A negative fraction is refused, and so are 0.5 and 0.75, whose sum is 1.25. The doubles
  0.5 and 0.5000000000000001 (that is \<open>1/2 + 1/2^53\<close>) pass: their exact sum is above 1
  and rounds to 1.0. The defaults pass.
\<close>

theorem init_fraction_assertions_witness:
  "od_init ex_ops 3 ex_env (- 1) 0 None None ''observation'' ''desired_goal'' ''achieved_goal''
     = Inl AssertionError \<and>
   float_add (1 / 2) (3 / 4) = 5 / 4 \<and>
   img_init 3 ex_env 4 (1 / 2) (3 / 4) None None ''observation'' ''desired_goal'' ''achieved_goal'' None
     = Inl AssertionError \<and>
   float_add (1 / 2) (1 / 2 + 1 / 2 ^ 53) = 1 \<and>
   (\<exists>s. od_init ex_ops 3 ex_env (1 / 2) (1 / 2 + 1 / 2 ^ 53) None None
            ''observation'' ''desired_goal'' ''achieved_goal''
          = Inr s \<and> od_top s = 0 \<and> od_size s = 0 \<and> od_max_size s = 3 \<and>
        od_fraction_goals_rollout_goals s = 1 / 2) \<and>
   (\<exists>s. ns_init 3 ex_env 4 1 0 None None ''observation'' ''desired_goal'' ''achieved_goal'' None
          = Inr s \<and> rb_top s = 0 \<and> rb_size s = 0 \<and> rb_max_size s = 3)"
proof -
  have fa: "float_add (1 / 2) (3 / 4) = 5 / 4"
  proof -
    have "round_half_even ((1 / 2 + 3 / 4) * 2 ^ 52) = 5 * 2 ^ 50"
      using round_half_even_of_int[of "5 * 2 ^ 50"] by simp
    then show ?thesis
      using round_double_unit[of "1 / 2 + 3 / 4"] by (simp add: float_add_def)
  qed
  have bad1: "\<not> (0 \<le> (- 1 :: real) \<and> 0 \<le> (0::real) \<and> float_add (- 1) 0 \<le> 1)" by simp
  have bad2: "\<not> (0 \<le> (1 / 2 :: real) \<and> 0 \<le> (3 / 4 :: real) \<and> float_add (1 / 2) (3 / 4) \<le> 1)"
    by (simp add: fa)
  have good: "0 \<le> (1 / 2 :: real) \<and> 0 \<le> (1 / 2 + 1 / 2 ^ 53 :: real) \<and>
      float_add (1 / 2) (1 / 2 + 1 / 2 ^ 53) \<le> 1"
  proof (intro conjI)
    show "float_add (1 / 2) (1 / 2 + 1 / 2 ^ 53) \<le> 1"
      by (simp only: float_add_tie order_refl)
  qed simp_all
  have dflt: "0 \<le> (1 :: real) \<and> 0 \<le> (0 :: real) \<and> float_add 1 0 \<le> 1"
    by (simp add: float_add_def round_double_one)
  have d: "observation_space ex_env = Dict (\<lambda>key. if key \<in> set ex_keys then Some 1 else None)"
    by (simp add: ex_env_def)
  note a = init_fraction_assertions[where f_r="- 1" and f_e=0 and ops=ex_ops and max_size=3 and env=ex_env
      and internal_keys=None and goal_keys=None and ok="''observation''" and dk="''desired_goal''"
      and ak="''achieved_goal''" and k=4 and t_fn=None, THEN conjunct1, rule_format, OF bad1]
  note b = init_fraction_assertions[where f_r="1 / 2" and f_e="3 / 4" and ops=ex_ops and max_size=3 and env=ex_env
      and internal_keys=None and goal_keys=None and ok="''observation''" and dk="''desired_goal''"
      and ak="''achieved_goal''" and k=4 and t_fn=None, THEN conjunct1, rule_format, OF bad2]
  note c = init_fraction_assertions[where f_r="1 / 2" and f_e="1 / 2 + 1 / 2 ^ 53" and ops=ex_ops and max_size=3
      and env=ex_env and internal_keys=None and goal_keys=None and ok="''observation''"
      and dk="''desired_goal''" and ak="''achieved_goal''" and k=4 and t_fn=None,
      THEN conjunct2, THEN conjunct1, rule_format, OF good, THEN conjunct2, rule_format, OF d]
  note e = init_fraction_assertions[where f_r=1 and f_e=0 and ops=ex_ops and max_size=3
      and env=ex_env and internal_keys=None and goal_keys=None and ok="''observation''"
      and dk="''desired_goal''" and ak="''achieved_goal''" and k=4 and t_fn=None,
      THEN conjunct2, THEN conjunct1, rule_format, OF dflt, THEN conjunct2, rule_format, OF d]
  have od: "\<exists>s. od_init ex_ops 3 ex_env (1 / 2) (1 / 2 + 1 / 2 ^ 53) None None
            ''observation'' ''desired_goal'' ''achieved_goal''
          = Inr s \<and> od_top s = 0 \<and> od_size s = 0 \<and> od_max_size s = 3 \<and>
        od_fraction_goals_rollout_goals s = 1 / 2"
    unfolding c[THEN conjunct1]
    by (simp add: od_build_def action_dim_of_def ex_env_def ex_keys_def)
  have ns: "\<exists>s. ns_init 3 ex_env 4 1 0 None None ''observation'' ''desired_goal'' ''achieved_goal'' None
          = Inr s \<and> rb_top s = 0 \<and> rb_size s = 0 \<and> rb_max_size s = 3"
    unfolding e[THEN conjunct2, THEN conjunct2]
    by (simp add: rb_build_def action_dim_of_def ex_env_def ex_keys_def)
  show ?thesis using a[THEN conjunct1] fa b[THEN conjunct2, THEN conjunct1] float_add_tie od ns by blast
qed

section \<open>add_sample of imgObsDictRelabelingBuffer\<close>

text \<open>
  The store \<^verbatim>\<open>a[i] = v\<close> of a vector into row \<open>i\<close> of an array: the index is looked up
  first (\<^verbatim>\<open>IndexError\<close> past the end), then \<open>v\<close> must have the width of the row, or a
  single entry, which numpy broadcasts; any other length is the \<^verbatim>\<open>ValueError\<close> the source
  mentions at line 412. The cast to the array's element type is left out.
\<close>

definition store_row :: "vec list \<Rightarrow> nat \<Rightarrow> vec \<Rightarrow> py_error + vec list" where
  "store_row a i v =
     (if length a \<le> i then Inl IndexError
      else if length v = length (a ! i) then Inr (a[i := v])
      else if length v = 1 then Inr (a[i := replicate (length (a ! i)) (hd v)])
      else Inl ValueError)"

text \<open>
  \<^verbatim>\<open>_advance\<close>, the same in both classes (lines 430-433 and 643-646).
\<close>

definition advance :: "relabel_buffer \<Rightarrow> py_error + relabel_buffer" where
  "advance s =
     (if rb_max_size s = 0 then Inl ZeroDivisionError
      else Inr (s\<lparr>rb_top := (rb_top s + 1) mod rb_max_size s,
                   rb_size := (if rb_size s < rb_max_size s then rb_size s + 1 else rb_size s)\<rparr>))"

text \<open>
  What \<^verbatim>\<open>imgObsDictRelabelingBuffer.add_sample\<close> prints in its handler (lines 417-424),
  one value for each \<^verbatim>\<open>print\<close>: the exception, the pointer, and three labelled values.
\<close>

datatype printed = PrintText string | PrintError py_error | PrintTop nat | PrintValue vec

definition debug_prints :: "py_error \<Rightarrow> nat \<Rightarrow> vec \<Rightarrow> vec \<Rightarrow> vec \<Rightarrow> printed list" where
  "debug_prints e tp obs next_obs terminal =
     [PrintError e, PrintTop tp, PrintText ''[INFO] obs'', PrintValue obs,
      PrintText ''[INFO] next_obs'', PrintValue next_obs,
      PrintText ''[INFO] terminal'', PrintValue terminal]"

text \<open>
  \<^verbatim>\<open>imgObsDictRelabelingBuffer.add_sample\<close> (lines 402-428). It mutates the buffer store by
  store, so the buffer it leaves is returned also when it raises: the result is the buffer,
  what was printed, and the exception, if any. The three first stores are outside the
  \<^verbatim>\<open>try\<close>; the handler prints and raises the exception it caught.
\<close>

definition img_add_sample ::
  "relabel_buffer \<Rightarrow> vec \<Rightarrow> vec \<Rightarrow> vec \<Rightarrow> vec \<Rightarrow> vec \<Rightarrow> relabel_buffer \<times> printed list \<times> py_error option" where
  "img_add_sample s obs action reward terminal next_obs =
     (case store_row (rb_actions s) (rb_top s) action of
        Inl e \<Rightarrow> (s, [], Some e)
      | Inr a \<Rightarrow>
          (let s1 = s\<lparr>rb_actions := a\<rparr> in
           case store_row (rb_rewards s1) (rb_top s1) reward of
             Inl e \<Rightarrow> (s1, [], Some e)
           | Inr r \<Rightarrow>
               (let s2 = s1\<lparr>rb_rewards := r\<rparr> in
                case store_row (rb_terminals s2) (rb_top s2) terminal of
                  Inl e \<Rightarrow> (s2, [], Some e)
                | Inr t \<Rightarrow>
                    (let s3 = s2\<lparr>rb_terminals := t\<rparr> in
                     case store_row (rb_obs s3) (rb_top s3) obs of
                       Inl e \<Rightarrow> (s3, debug_prints e (rb_top s3) obs next_obs terminal, Some e)
                     | Inr ob \<Rightarrow>
                         (let s4 = s3\<lparr>rb_obs := ob\<rparr> in
                          case store_row (rb_next_obs s4) (rb_top s4) next_obs of
                            Inl e \<Rightarrow> (s4, debug_prints e (rb_top s4) obs next_obs terminal, Some e)
                          | Inr nx \<Rightarrow>
                              (let s5 = s4\<lparr>rb_next_obs := nx\<rparr> in
                               case advance s5 of
                                 Inl e \<Rightarrow> (s5, [], Some e)
                               | Inr s6 \<Rightarrow> (s6, [], None)))))))"

text \<open>
The five arrays have \<^verbatim>\<open>max_size\<close> rows, as the constructors build them.
\<close>

definition rb_shaped :: "relabel_buffer \<Rightarrow> bool" where
  "rb_shaped s =
     (length (rb_actions s) = rb_max_size s \<and> length (rb_rewards s) = rb_max_size s \<and>
      length (rb_terminals s) = rb_max_size s \<and> length (rb_obs s) = rb_max_size s \<and>
      length (rb_next_obs s) = rb_max_size s)"

lemma store_row_ok_bound: "store_row a i v = Inr b \<Longrightarrow> i < length a"
  by (simp add: store_row_def split: if_splits)

text \<open>
  Claim C8. When the store of the observation or of the next observation raises \<open>e\<close>,
  whatever \<open>e\<close> is, \<^verbatim>\<open>add_sample\<close> makes its eight prints (the exception, the pointer,
  and the labelled observation, next observation and terminal) and raises that same \<open>e\<close>.
  Whenever it raises, \<^verbatim>\<open>_top\<close> and \<^verbatim>\<open>_size\<close> are as before. It returns exactly when its
  five stores succeed (and \<^verbatim>\<open>max_size\<close> is not 0, which a buffer with arrays of
  \<^verbatim>\<open>max_size\<close> rows cannot have once a store succeeds), and then \<^verbatim>\<open>_top\<close> is
  \<open>(_top + 1) mod max_size\<close> and \<^verbatim>\<open>_size\<close> has grown by one unless the buffer was full.
\<close>

theorem img_add_sample_reraise:
  "case img_add_sample s obs action reward terminal next_obs of
     (s', out, err) \<Rightarrow>
       (\<forall>e. \<not> isl (store_row (rb_actions s) (rb_top s) action) \<and>
            \<not> isl (store_row (rb_rewards s) (rb_top s) reward) \<and>
            \<not> isl (store_row (rb_terminals s) (rb_top s) terminal) \<and>
            (store_row (rb_obs s) (rb_top s) obs = Inl e \<or>
             \<not> isl (store_row (rb_obs s) (rb_top s) obs) \<and>
             store_row (rb_next_obs s) (rb_top s) next_obs = Inl e)
          \<longrightarrow> err = Some e \<and>
              out = [PrintError e, PrintTop (rb_top s), PrintText ''[INFO] obs'', PrintValue obs,
                     PrintText ''[INFO] next_obs'', PrintValue next_obs,
                     PrintText ''[INFO] terminal'', PrintValue terminal]) \<and>
       (err \<noteq> None \<longrightarrow> rb_top s' = rb_top s \<and> rb_size s' = rb_size s) \<and>
       (err = None \<longleftrightarrow>
          \<not> isl (store_row (rb_actions s) (rb_top s) action) \<and>
          \<not> isl (store_row (rb_rewards s) (rb_top s) reward) \<and>
          \<not> isl (store_row (rb_terminals s) (rb_top s) terminal) \<and>
          \<not> isl (store_row (rb_obs s) (rb_top s) obs) \<and>
          \<not> isl (store_row (rb_next_obs s) (rb_top s) next_obs) \<and>
          rb_max_size s \<noteq> 0) \<and>
       (rb_shaped s \<longrightarrow>
          (err = None \<longleftrightarrow>
             \<not> isl (store_row (rb_actions s) (rb_top s) action) \<and>
             \<not> isl (store_row (rb_rewards s) (rb_top s) reward) \<and>
             \<not> isl (store_row (rb_terminals s) (rb_top s) terminal) \<and>
             \<not> isl (store_row (rb_obs s) (rb_top s) obs) \<and>
             \<not> isl (store_row (rb_next_obs s) (rb_top s) next_obs))) \<and>
       (err = None \<longrightarrow>
          rb_top s' = (rb_top s + 1) mod rb_max_size s \<and>
          rb_size s' = (if rb_size s < rb_max_size s then rb_size s + 1 else rb_size s))"
proof (cases "store_row (rb_actions s) (rb_top s) action")
  case (Inl e)
  then show ?thesis by (simp add: img_add_sample_def)
next
  case a: (Inr a)
  then have m: "rb_shaped s \<Longrightarrow> rb_max_size s \<noteq> 0"
    using store_row_ok_bound[OF a] by (auto simp: rb_shaped_def)
  show ?thesis
  proof (cases "store_row (rb_rewards s) (rb_top s) reward")
    case (Inl e)
    then show ?thesis using a by (simp add: img_add_sample_def)
  next
    case r: (Inr r)
    show ?thesis
    proof (cases "store_row (rb_terminals s) (rb_top s) terminal")
      case (Inl e)
      then show ?thesis using a r by (simp add: img_add_sample_def)
    next
      case t: (Inr t)
      show ?thesis
      proof (cases "store_row (rb_obs s) (rb_top s) obs")
        case (Inl e)
        then show ?thesis using a r t by (simp add: img_add_sample_def debug_prints_def)
      next
        case ob: (Inr ob)
        show ?thesis
        proof (cases "store_row (rb_next_obs s) (rb_top s) next_obs")
          case (Inl e)
          then show ?thesis using a r t ob by (simp add: img_add_sample_def debug_prints_def)
        next
          case (Inr nx)
          then show ?thesis using a r t ob m
            by (cases "rb_max_size s = 0") (auto simp: img_add_sample_def advance_def Let_def)
        qed
      qed
    qed
  qed
qed

text \<open>
A buffer of two rows that holds one sample; its observation rows have width 2.
\<close>

definition ex_rb :: relabel_buffer where
  "ex_rb =
     \<lparr>rb_max_size = 2, rb_k = 1, rb_t_fn = None, rb_discrete = False, rb_action_dim = 1,
      rb_fraction_goals_rollout_goals = 1, rb_fraction_goals_env_goals = 0,
      rb_ob_keys_to_save = [''observation'', ''desired_goal'', ''achieved_goal'', ''save_state''],
      rb_internal_keys = [], rb_goal_keys = [''desired_goal''],
      rb_observation_key = ''observation'', rb_desired_goal_key = ''desired_goal'',
      rb_achieved_goal_key = ''achieved_goal'',
      rb_actions = [[7], [0]], rb_terminals = [[0], [0]], rb_rewards = [[1], [0]],
      rb_obs = [[1, 1], [0, 0]], rb_next_obs = [[2, 2], [0, 0]],
      rb_top = 1, rb_size = 1, rb_idx_to_future_obs_idx = []\<rparr>"

lemma ex_rb_shaped: "rb_shaped ex_rb"
  by (simp add: rb_shaped_def ex_rb_def)

text \<open>
  C8 on the example: an observation of width 3 raises \<^verbatim>\<open>ValueError\<close>, is reported, and
  leaves pointer and size at 1; with a next-observation array of a single row the store
  raises \<^verbatim>\<open>IndexError\<close>, and that is what \<^verbatim>\<open>add_sample\<close> raises; an observation of
  width 2 is stored, the pointer wraps to 0 and the size is 2.
\<close>

theorem img_add_sample_reraise_witness:
  "snd (snd (img_add_sample ex_rb [1, 2, 3] [5] [1] [0] [1, 2])) = Some ValueError \<and>
   fst (snd (img_add_sample ex_rb [1, 2, 3] [5] [1] [0] [1, 2])) =
     [PrintError ValueError, PrintTop 1, PrintText ''[INFO] obs'', PrintValue [1, 2, 3],
      PrintText ''[INFO] next_obs'', PrintValue [1, 2], PrintText ''[INFO] terminal'', PrintValue [0]] \<and>
   rb_top (fst (img_add_sample ex_rb [1, 2, 3] [5] [1] [0] [1, 2])) = 1 \<and>
   rb_size (fst (img_add_sample ex_rb [1, 2, 3] [5] [1] [0] [1, 2])) = 1 \<and>
   snd (snd (img_add_sample (ex_rb\<lparr>rb_next_obs := [[2, 2]]\<rparr>) [1, 2] [5] [1] [0] [3, 4])) = Some IndexError \<and>
   rb_shaped ex_rb \<and>
   snd (snd (img_add_sample ex_rb [1, 2] [5] [1] [0] [3, 4])) = None \<and>
   rb_top (fst (img_add_sample ex_rb [1, 2] [5] [1] [0] [3, 4])) = 0 \<and>
   rb_size (fst (img_add_sample ex_rb [1, 2] [5] [1] [0] [3, 4])) = 2"
proof -
  let ?short = "ex_rb\<lparr>rb_next_obs := [[2, 2]]\<rparr>"
  obtain s' out err where bad: "img_add_sample ex_rb [1, 2, 3] [5] [1] [0] [1, 2] = (s', out, err)"
    by (cases "img_add_sample ex_rb [1, 2, 3] [5] [1] [0] [1, 2]") auto
  obtain s'' out' err' where good: "img_add_sample ex_rb [1, 2] [5] [1] [0] [3, 4] = (s'', out', err')"
    by (cases "img_add_sample ex_rb [1, 2] [5] [1] [0] [3, 4]") auto
  obtain s3 out3 err3 where idx: "img_add_sample ?short [1, 2] [5] [1] [0] [3, 4] = (s3, out3, err3)"
    by (cases "img_add_sample ?short [1, 2] [5] [1] [0] [3, 4]") auto
  note b = img_add_sample_reraise[where s=ex_rb and obs="[1, 2, 3]" and action="[5]"
      and reward="[1]" and terminal="[0]" and next_obs="[1, 2]", unfolded bad prod.case]
  note g = img_add_sample_reraise[where s=ex_rb and obs="[1, 2]" and action="[5]"
      and reward="[1]" and terminal="[0]" and next_obs="[3, 4]", unfolded good prod.case]
  note x = img_add_sample_reraise[where s="?short" and obs="[1, 2]" and action="[5]"
      and reward="[1]" and terminal="[0]" and next_obs="[3, 4]", unfolded idx prod.case]
  have st: "\<not> isl (store_row (rb_actions ex_rb) (rb_top ex_rb) [5])"
    "\<not> isl (store_row (rb_rewards ex_rb) (rb_top ex_rb) [1])"
    "\<not> isl (store_row (rb_terminals ex_rb) (rb_top ex_rb) [0])"
    "store_row (rb_obs ex_rb) (rb_top ex_rb) [1, 2, 3] = Inl ValueError"
    "\<not> isl (store_row (rb_obs ex_rb) (rb_top ex_rb) [1, 2])"
    "\<not> isl (store_row (rb_next_obs ex_rb) (rb_top ex_rb) [3, 4])"
    by (simp_all add: store_row_def ex_rb_def)
  have st3: "\<not> isl (store_row (rb_actions ?short) (rb_top ?short) [5])"
    "\<not> isl (store_row (rb_rewards ?short) (rb_top ?short) [1])"
    "\<not> isl (store_row (rb_terminals ?short) (rb_top ?short) [0])"
    "\<not> isl (store_row (rb_obs ?short) (rb_top ?short) [1, 2])"
    "store_row (rb_next_obs ?short) (rb_top ?short) [3, 4] = Inl IndexError"
    by (simp_all add: store_row_def ex_rb_def)
  have e: "err = Some ValueError \<and>
      out = [PrintError ValueError, PrintTop (rb_top ex_rb), PrintText ''[INFO] obs'', PrintValue [1, 2, 3],
      PrintText ''[INFO] next_obs'', PrintValue [1, 2], PrintText ''[INFO] terminal'', PrintValue [0]]"
    using b[THEN conjunct1, rule_format, of ValueError] st by blast
  then have tb: "rb_top s' = rb_top ex_rb \<and> rb_size s' = rb_size ex_rb"
    using b by simp
  have e3: "err3 = Some IndexError"
    using x[THEN conjunct1, rule_format, of IndexError] st3 by blast
  have n: "err' = None"
    using g[THEN conjunct2, THEN conjunct2, THEN conjunct2, THEN conjunct1, rule_format, OF ex_rb_shaped] st
    by blast
  then have tg: "rb_top s'' = (rb_top ex_rb + 1) mod rb_max_size ex_rb \<and>
      rb_size s'' = (if rb_size ex_rb < rb_max_size ex_rb then rb_size ex_rb + 1 else rb_size ex_rb)"
    using g by simp
  show ?thesis
    using ex_rb_shaped e tb e3 n tg unfolding bad good idx by (simp add: ex_rb_def)
qed

section \<open>The evaluation loop of ISE_7202/eval.py\<close>


text \<open>
  What a run does, in order. Every event of the loop carries the iteration \<open>i\<close> it
  happens in. A call is recorded when it is made, also when it then raises; \<open>Prompt\<close> is
  the call of \<^verbatim>\<open>input\<close> and \<open>Confirm\<close> its return with a line.
\<close>

datatype event =
  WrapEnvironment | PrintResetEpisode nat | EnvReset nat | GetAction nat
  | Prompt nat | Confirm nat | EnvStep nat | EnvRender nat












definition reset_iterations :: "event list \<Rightarrow> nat list" where
  "reset_iterations tr = concat (map (\<lambda>e. case e of EnvReset i \<Rightarrow> [i] | _ \<Rightarrow> []) tr)"

definition step_iterations :: "event list \<Rightarrow> nat list" where
  "step_iterations tr = concat (map (\<lambda>e. case e of EnvStep i \<Rightarrow> [i] | _ \<Rightarrow> []) tr)"



lemma step_iterations_append [simp]:
  "step_iterations (xs @ ys) = step_iterations xs @ step_iterations ys"
  by (simp add: step_iterations_def)

lemma reset_iterations_append [simp]:
  "reset_iterations (xs @ ys) = reset_iterations xs @ reset_iterations ys"
  by (simp add: reset_iterations_def)


















section \<open>add_path of newstateObsDictRelabelingBuffer\<close>

text \<open>
  The path the two other classes receive: they index it step by step, so its parts are
  Python sequences, of dictionaries from keys to vectors and of vectors.
\<close>

record step_path =
  sp_observations :: "(string \<rightharpoonup> vec) list"
  sp_actions :: "vec list"
  sp_rewards :: "vec list"
  sp_next_observations :: "(string \<rightharpoonup> vec) list"
  sp_terminals :: "vec list"

text \<open>
  \<^verbatim>\<open>xs[i]\<close> for an index that is not negative, and \<^verbatim>\<open>d[key]\<close>.
\<close>

definition item :: "'a list \<Rightarrow> nat \<Rightarrow> py_error + 'a" where
  "item xs i = (if i < length xs then Inr (xs ! i) else Inl IndexError)"

definition entry :: "(string \<rightharpoonup> 'a) \<Rightarrow> string \<Rightarrow> py_error + 'a" where
  "entry d key = (case d key of None \<Rightarrow> Inl KeyError | Some v \<Rightarrow> Inr v)"

text \<open>
  \<^verbatim>\<open>dicts[i][key]\<close>.
\<close>

definition item_entry :: "(string \<rightharpoonup> 'a) list \<Rightarrow> nat \<Rightarrow> string \<Rightarrow> py_error + 'a" where
  "item_entry dicts i key = (case item dicts i of Inl e \<Rightarrow> Inl e | Inr d \<Rightarrow> entry d key)"

text \<open>
  \<^verbatim>\<open>np.concatenate([dicts[i][key1], other[j][key2]])\<close>, its two operands evaluated from left
  to right.
\<close>

definition concatenate ::
  "(py_error + vec) \<Rightarrow> (py_error + vec) \<Rightarrow> py_error + vec" where
  "concatenate x y =
     (case x of
        Inl e \<Rightarrow> Inl e
      | Inr u \<Rightarrow> (case y of Inl e \<Rightarrow> Inl e | Inr v \<Rightarrow> Inr (u @ v)))"

text \<open>
  \<^verbatim>\<open>newstateObsDictRelabelingBuffer.add_sample\<close> (lines 634-641): five row stores, then
  \<^verbatim>\<open>_advance\<close>.
\<close>

definition ns_add_sample ::
  "relabel_buffer \<Rightarrow> vec \<Rightarrow> vec \<Rightarrow> vec \<Rightarrow> vec \<Rightarrow> vec \<Rightarrow> py_error + relabel_buffer" where
  "ns_add_sample s obs action reward terminal next_obs =
     (case store_row (rb_actions s) (rb_top s) action of
        Inl e \<Rightarrow> Inl e
      | Inr a \<Rightarrow>
          (case store_row (rb_rewards s) (rb_top s) reward of
             Inl e \<Rightarrow> Inl e
           | Inr r \<Rightarrow>
               (case store_row (rb_terminals s) (rb_top s) terminal of
                  Inl e \<Rightarrow> Inl e
                | Inr t \<Rightarrow>
                    (case store_row (rb_obs s) (rb_top s) obs of
                       Inl e \<Rightarrow> Inl e
                     | Inr ob \<Rightarrow>
                         (case store_row (rb_next_obs s) (rb_top s) next_obs of
                            Inl e \<Rightarrow> Inl e
                          | Inr nx \<Rightarrow>
                              advance (s\<lparr>rb_actions := a, rb_rewards := r, rb_terminals := t,
                                         rb_obs := ob, rb_next_obs := nx\<rparr>))))))"

text \<open>
  The random numbers of numpy are an endless sequence of natural numbers, of which every
  draw takes the next ones. \<^verbatim>\<open>np.random.choice(np.arange(lo, hi), k, replace=True)\<close> takes
  \<open>k\<close> of them and turns each into an element of \<open>[lo, hi)\<close>; every outcome of the call
  comes from some sequence. It raises \<^verbatim>\<open>ValueError\<close> for an empty range when \<open>k\<close> is not
  0.
\<close>

type_synonym rng = "nat \<Rightarrow> nat"

definition random_choice :: "rng \<Rightarrow> nat \<Rightarrow> nat \<Rightarrow> nat \<Rightarrow> py_error + nat list \<times> rng" where
  "random_choice g lo hi k =
     (if hi \<le> lo \<and> k \<noteq> 0 then Inl ValueError
      else Inr (map (\<lambda>j. lo + g j mod (hi - lo)) [0..<k], \<lambda>n. g (n + k)))"

text \<open>
  The inner loop of lines 670-675, over the sampled indices: one relabeled sample for each.
  \<open>compute_reward\<close> is \<^verbatim>\<open>self.env.compute_reward\<close> with its third argument \<^verbatim>\<open>None\<close>, a
  parameter of the model that returns a number or raises.
\<close>

fun ns_relabel ::
  "(vec \<Rightarrow> vec \<Rightarrow> py_error + real) \<Rightarrow> step_path \<Rightarrow> nat \<Rightarrow> nat list \<Rightarrow> relabel_buffer
   \<Rightarrow> py_error + relabel_buffer" where
  "ns_relabel compute_reward p i [] s = Inr s"
| "ns_relabel compute_reward p i (sampled_goal_idx # rest) s =
     (case item (sp_actions p) i of
        Inl e \<Rightarrow> Inl e
      | Inr a \<Rightarrow>
          (case item_entry (sp_next_observations p) sampled_goal_idx ''achieved_goal'' of
             Inl e \<Rightarrow> Inl e
           | Inr g \<Rightarrow>
               (case concatenate (item_entry (sp_observations p) i ''observation'') (Inr g) of
                  Inl e \<Rightarrow> Inl e
                | Inr o_before \<Rightarrow>
                    (case concatenate (item_entry (sp_next_observations p) i ''observation'') (Inr g) of
                       Inl e \<Rightarrow> Inl e
                     | Inr o_after \<Rightarrow>
                         (case item_entry (sp_next_observations p) i ''achieved_goal'' of
                            Inl e \<Rightarrow> Inl e
                          | Inr ag \<Rightarrow>
                              (case compute_reward ag g of
                                 Inl e \<Rightarrow> Inl e
                               | Inr rew \<Rightarrow>
                                   (case item (sp_terminals p) i of
                                      Inl e \<Rightarrow> Inl e
                                    | Inr terminal \<Rightarrow>
                                        (case ns_add_sample s o_before a [rew] terminal o_after of
                                           Inl e \<Rightarrow> Inl e
                                         | Inr s1 \<Rightarrow> ns_relabel compute_reward p i rest s1))))))))"

text \<open>
  The sample of step \<open>i\<close> as line 666 stores it: the arguments of \<^verbatim>\<open>add_sample\<close> are
  evaluated from left to right.
\<close>

definition ns_add_step :: "step_path \<Rightarrow> nat \<Rightarrow> relabel_buffer \<Rightarrow> py_error + relabel_buffer" where
  "ns_add_step p i s =
     (case concatenate (item_entry (sp_observations p) i ''observation'')
             (item_entry (sp_observations p) i ''desired_goal'') of
        Inl e \<Rightarrow> Inl e
      | Inr ob \<Rightarrow>
          (case item (sp_actions p) i of
             Inl e \<Rightarrow> Inl e
           | Inr a \<Rightarrow>
               (case item (sp_rewards p) i of
                  Inl e \<Rightarrow> Inl e
                | Inr r \<Rightarrow>
                    (case item (sp_terminals p) i of
                       Inl e \<Rightarrow> Inl e
                     | Inr t \<Rightarrow>
                         (case concatenate (item_entry (sp_next_observations p) i ''observation'')
                                 (item_entry (sp_next_observations p) i ''desired_goal'') of
                            Inl e \<Rightarrow> Inl e
                          | Inr nx \<Rightarrow> ns_add_sample s ob a r t nx)))))"

text \<open>
  The loop \<^verbatim>\<open>for i in range(path_len)\<close> of lines 665-675, which leaves at its
  \<^verbatim>\<open>break\<close> in the last step.
\<close>

fun ns_add_steps ::
  "(vec \<Rightarrow> vec \<Rightarrow> py_error + real) \<Rightarrow> step_path \<Rightarrow> nat \<Rightarrow> nat list \<Rightarrow> relabel_buffer \<times> rng
   \<Rightarrow> py_error + relabel_buffer \<times> rng" where
  "ns_add_steps compute_reward p path_len [] (s, g) = Inr (s, g)"
| "ns_add_steps compute_reward p path_len (i # is) (s, g) =
     (case ns_add_step p i s of
        Inl e \<Rightarrow> Inl e
      | Inr s1 \<Rightarrow>
          if i = path_len - 1 then Inr (s1, g)
          else
            (case random_choice g (i + 1) path_len (rb_k s1) of
               Inl e \<Rightarrow> Inl e
             | Inr (selected_idx, g1) \<Rightarrow>
                 (case ns_relabel compute_reward p i selected_idx s1 of
                    Inl e \<Rightarrow> Inl e
                  | Inr s2 \<Rightarrow> ns_add_steps compute_reward p path_len is (s2, g1))))"

text \<open>
  \<^verbatim>\<open>newstateObsDictRelabelingBuffer.add_path\<close> (lines 655-675). The imports of lines
  662-663 are taken to succeed; \<^verbatim>\<open>saveimg\<close> is never called.
\<close>

definition ns_add_path ::
  "(vec \<Rightarrow> vec \<Rightarrow> py_error + real) \<Rightarrow> relabel_buffer \<Rightarrow> step_path \<Rightarrow> rng
   \<Rightarrow> py_error + relabel_buffer \<times> rng" where
  "ns_add_path compute_reward s p g =
     (let path_len = length (sp_rewards p) in
      ns_add_steps compute_reward p path_len [0..<path_len] (s, g))"

text \<open>
  A sample is the five arguments of \<^verbatim>\<open>add_sample\<close>: observation, action, reward, terminal
  and next observation. \<open>ns_insert_all\<close> adds the samples of a list one after the other.
\<close>

type_synonym sample = "vec \<times> vec \<times> vec \<times> vec \<times> vec"

definition ns_insert :: "relabel_buffer \<Rightarrow> sample \<Rightarrow> py_error + relabel_buffer" where
  "ns_insert s x = (case x of (obs, action, reward, terminal, next_obs) \<Rightarrow>
     ns_add_sample s obs action reward terminal next_obs)"

fun ns_insert_all :: "relabel_buffer \<Rightarrow> sample list \<Rightarrow> py_error + relabel_buffer" where
  "ns_insert_all s [] = Inr s"
| "ns_insert_all s (x # xs) =
     (case ns_insert s x of Inl e \<Rightarrow> Inl e | Inr s1 \<Rightarrow> ns_insert_all s1 xs)"

text \<open>
  The samples the claim describes for a path \<open>p\<close> of \<open>L\<close> steps, \<open>k\<close> relabeled samples a
  step and random numbers \<open>g\<close>. \<open>step_entry\<close> is the vector under a key at a step.
  \<open>original\<close> is the sample of step \<open>i\<close> itself, with the desired goal after the
  observation. \<open>chosen\<close> are the \<open>k\<close> later steps drawn for step \<open>i\<close>, which come after
  the \<open>i * k\<close> numbers drawn for the steps before. \<open>relabeled\<close> is the sample of step
  \<open>i\<close> with the achieved goal of step \<open>c\<close> as its goal and the reward that
  \<^verbatim>\<open>compute_reward\<close> gives for the achieved goal of step \<open>i\<close> and that goal.
\<close>

definition step_entry :: "(string \<rightharpoonup> vec) list \<Rightarrow> nat \<Rightarrow> string \<Rightarrow> vec" where
  "step_entry dicts i key = the ((dicts ! i) key)"

definition original :: "step_path \<Rightarrow> nat \<Rightarrow> sample" where
  "original p i =
     (step_entry (sp_observations p) i ''observation'' @ step_entry (sp_observations p) i ''desired_goal'',
      sp_actions p ! i, sp_rewards p ! i, sp_terminals p ! i,
      step_entry (sp_next_observations p) i ''observation''
        @ step_entry (sp_next_observations p) i ''desired_goal'')"

definition relabeled :: "(vec \<Rightarrow> vec \<Rightarrow> py_error + real) \<Rightarrow> step_path \<Rightarrow> nat \<Rightarrow> nat \<Rightarrow> sample" where
  "relabeled compute_reward p i c =
     (step_entry (sp_observations p) i ''observation'' @ step_entry (sp_next_observations p) c ''achieved_goal'',
      sp_actions p ! i,
      [projr (compute_reward (step_entry (sp_next_observations p) i ''achieved_goal'')
                (step_entry (sp_next_observations p) c ''achieved_goal''))],
      sp_terminals p ! i,
      step_entry (sp_next_observations p) i ''observation''
        @ step_entry (sp_next_observations p) c ''achieved_goal'')"

definition chosen :: "rng \<Rightarrow> nat \<Rightarrow> nat \<Rightarrow> nat \<Rightarrow> nat list" where
  "chosen g L k i = map (\<lambda>j. i + 1 + g (i * k + j) mod (L - (i + 1))) [0..<k]"

definition step_samples ::
  "(vec \<Rightarrow> vec \<Rightarrow> py_error + real) \<Rightarrow> step_path \<Rightarrow> rng \<Rightarrow> nat \<Rightarrow> nat \<Rightarrow> nat \<Rightarrow> sample list" where
  "step_samples compute_reward p g L k i =
     original p i # (if i = L - 1 then [] else map (relabeled compute_reward p i) (chosen g L k i))"

definition expected_samples ::
  "(vec \<Rightarrow> vec \<Rightarrow> py_error + real) \<Rightarrow> step_path \<Rightarrow> rng \<Rightarrow> nat \<Rightarrow> nat \<Rightarrow> sample list" where
  "expected_samples compute_reward p g L k = concat (map (step_samples compute_reward p g L k) [0..<L])"

text \<open>
  A path that \<^verbatim>\<open>add_path\<close> can read: \<open>L\<close> steps, at least one, in each of its five
  sequences, the keys \<^verbatim>\<open>add_path\<close> looks up at every step, and a reward function that
  returns for the achieved goal of a step and that of a later step.
\<close>

definition path_readable :: "(vec \<Rightarrow> vec \<Rightarrow> py_error + real) \<Rightarrow> step_path \<Rightarrow> nat \<Rightarrow> bool" where
  "path_readable compute_reward p L =
     (1 \<le> L \<and> length (sp_observations p) = L \<and> length (sp_actions p) = L \<and>
      length (sp_rewards p) = L \<and> length (sp_next_observations p) = L \<and>
      length (sp_terminals p) = L \<and>
      (\<forall>i<L. (sp_observations p ! i) ''observation'' \<noteq> None \<and>
             (sp_observations p ! i) ''desired_goal'' \<noteq> None \<and>
             (sp_next_observations p ! i) ''observation'' \<noteq> None \<and>
             (sp_next_observations p ! i) ''desired_goal'' \<noteq> None \<and>
             (sp_next_observations p ! i) ''achieved_goal'' \<noteq> None) \<and>
      (\<forall>i<L. \<forall>c<L. i < c \<longrightarrow>
         \<not> isl (compute_reward (step_entry (sp_next_observations p) i ''achieved_goal'')
                   (step_entry (sp_next_observations p) c ''achieved_goal''))))"

text \<open>
  A buffer whose rows have the widths the constructor gives them (\<open>wa\<close> for an action,
  \<open>wo\<close> for an observation, 1 for a reward and a terminal), with its pointer and its size
  in range; and a sample whose vectors a row store takes: of the width of the row, or of a
  single entry.
\<close>

definition rb_rows :: "relabel_buffer \<Rightarrow> nat \<Rightarrow> nat \<Rightarrow> bool" where
  "rb_rows s wa wo =
     (rb_shaped s \<and> rb_top s < rb_max_size s \<and> rb_size s \<le> rb_max_size s \<and>
      list_all (\<lambda>r. length r = wa) (rb_actions s) \<and>
      list_all (\<lambda>r. length r = 1) (rb_rewards s) \<and>
      list_all (\<lambda>r. length r = 1) (rb_terminals s) \<and>
      list_all (\<lambda>r. length r = wo) (rb_obs s) \<and>
      list_all (\<lambda>r. length r = wo) (rb_next_obs s))"

definition fits :: "nat \<Rightarrow> vec \<Rightarrow> bool" where
  "fits w v = (length v = w \<or> length v = 1)"

definition sample_fits :: "nat \<Rightarrow> nat \<Rightarrow> sample \<Rightarrow> bool" where
  "sample_fits wa wo x = (case x of (obs, action, reward, terminal, next_obs) \<Rightarrow>
     fits wo obs \<and> fits wa action \<and> fits 1 reward \<and> fits 1 terminal \<and> fits wo next_obs)"

lemma ns_insert_all_append:
  "ns_insert_all s (xs @ ys) =
     (case ns_insert_all s xs of Inl e \<Rightarrow> Inl e | Inr s1 \<Rightarrow> ns_insert_all s1 ys)"
  by (induction xs arbitrary: s) (simp_all split: sum.splits)

lemma store_row_fits:
  assumes "i < length a" "list_all (\<lambda>r. length r = w) a" "fits w v"
  shows "\<exists>b. store_row a i v = Inr b \<and> length b = length a \<and> list_all (\<lambda>r. length r = w) b"
proof -
  have w: "length (a ! i) = w" using assms(1,2) by (simp add: list_all_length)
  have k: "list_all (\<lambda>r. length r = w) (a[i := u])" if "length u = w" for u
    using assms(2) that by (auto simp: list_all_iff dest: set_update_subset_insert[THEN subsetD])
  show ?thesis
  proof (cases "length v = w")
    case True
    then show ?thesis using assms(1) w k[of v] by (simp add: store_row_def)
  next
    case False
    then have "length v = 1" using assms(3) by (simp add: fits_def)
    then show ?thesis using assms(1) w False k[of "replicate w (hd v)"] by (simp add: store_row_def)
  qed
qed

lemma ns_add_sample_keeps:
  "ns_add_sample s obs action reward terminal next_obs = Inr s' \<Longrightarrow>
   rb_k s' = rb_k s \<and> rb_max_size s' = rb_max_size s"
  by (auto simp: ns_add_sample_def advance_def split: sum.splits if_splits)

lemma ns_insert_fits:
  assumes "rb_rows s wa wo" "sample_fits wa wo x"
  shows "\<exists>s'. ns_insert s x = Inr s' \<and> rb_rows s' wa wo \<and>
     rb_top s' = (rb_top s + 1) mod rb_max_size s \<and>
     rb_size s' = min (rb_size s + 1) (rb_max_size s) \<and>
     rb_k s' = rb_k s \<and> rb_max_size s' = rb_max_size s"
proof -
  obtain obs action reward terminal next_obs where x: "x = (obs, action, reward, terminal, next_obs)"
    by (cases x) auto
  have f: "fits wo obs" "fits wa action" "fits 1 reward" "fits 1 terminal" "fits wo next_obs"
    using assms(2) by (simp_all add: sample_fits_def x)
  have sh: "rb_shaped s" "rb_top s < rb_max_size s" "rb_size s \<le> rb_max_size s"
    and w: "list_all (\<lambda>r. length r = wa) (rb_actions s)" "list_all (\<lambda>r. length r = 1) (rb_rewards s)"
      "list_all (\<lambda>r. length r = 1) (rb_terminals s)" "list_all (\<lambda>r. length r = wo) (rb_obs s)"
      "list_all (\<lambda>r. length r = wo) (rb_next_obs s)"
    using assms(1) by (simp_all add: rb_rows_def)
  have len: "rb_top s < length (rb_actions s)" "rb_top s < length (rb_rewards s)"
    "rb_top s < length (rb_terminals s)" "rb_top s < length (rb_obs s)" "rb_top s < length (rb_next_obs s)"
    using sh by (simp_all add: rb_shaped_def)
  from store_row_fits[OF len(1) w(1) f(2)] obtain a where
    a: "store_row (rb_actions s) (rb_top s) action = Inr a" "length a = length (rb_actions s)"
       "list_all (\<lambda>r. length r = wa) a" by blast
  from store_row_fits[OF len(2) w(2) f(3)] obtain r where
    r: "store_row (rb_rewards s) (rb_top s) reward = Inr r" "length r = length (rb_rewards s)"
       "list_all (\<lambda>r. length r = 1) r" by blast
  from store_row_fits[OF len(3) w(3) f(4)] obtain t where
    t: "store_row (rb_terminals s) (rb_top s) terminal = Inr t" "length t = length (rb_terminals s)"
       "list_all (\<lambda>r. length r = 1) t" by blast
  from store_row_fits[OF len(4) w(4) f(1)] obtain ob where
    ob: "store_row (rb_obs s) (rb_top s) obs = Inr ob" "length ob = length (rb_obs s)"
       "list_all (\<lambda>r. length r = wo) ob" by blast
  from store_row_fits[OF len(5) w(5) f(5)] obtain nx where
    nx: "store_row (rb_next_obs s) (rb_top s) next_obs = Inr nx" "length nx = length (rb_next_obs s)"
       "list_all (\<lambda>r. length r = wo) nx" by blast
  let ?s1 = "s\<lparr>rb_actions := a, rb_rewards := r, rb_terminals := t, rb_obs := ob, rb_next_obs := nx\<rparr>"
  let ?s' = "?s1\<lparr>rb_top := (rb_top s + 1) mod rb_max_size s,
                  rb_size := (if rb_size s < rb_max_size s then rb_size s + 1 else rb_size s)\<rparr>"
  have run: "ns_insert s x = Inr ?s'"
    using a(1) r(1) t(1) ob(1) nx(1) sh(2) by (simp add: ns_insert_def x ns_add_sample_def advance_def)
  have rows: "rb_rows ?s' wa wo"
    using sh a r t ob nx by (auto simp: rb_rows_def rb_shaped_def)
  have sz: "rb_size ?s' = min (rb_size s + 1) (rb_max_size s)" using sh(3) by auto
  show ?thesis using run rows sz by simp
qed

lemma ns_insert_all_fits:
  "rb_rows s wa wo \<Longrightarrow> list_all (sample_fits wa wo) xs \<Longrightarrow>
   \<exists>s'. ns_insert_all s xs = Inr s' \<and> rb_rows s' wa wo \<and>
     rb_top s' = (rb_top s + length xs) mod rb_max_size s \<and>
     rb_size s' = min (rb_size s + length xs) (rb_max_size s) \<and>
     rb_k s' = rb_k s \<and> rb_max_size s' = rb_max_size s"
proof (induction xs arbitrary: s)
  case Nil
  then show ?case by (simp add: rb_rows_def)
next
  case (Cons x xs)
  from Cons.prems have fx: "sample_fits wa wo x" and fxs: "list_all (sample_fits wa wo) xs" by simp_all
  from ns_insert_fits[OF Cons.prems(1) fx] obtain s1 where
    s1: "ns_insert s x = Inr s1" "rb_rows s1 wa wo" "rb_top s1 = (rb_top s + 1) mod rb_max_size s"
      "rb_size s1 = min (rb_size s + 1) (rb_max_size s)" "rb_k s1 = rb_k s"
      "rb_max_size s1 = rb_max_size s" by blast
  from Cons.IH[OF s1(2) fxs] obtain s' where
    s': "ns_insert_all s1 xs = Inr s'" "rb_rows s' wa wo"
      "rb_top s' = (rb_top s1 + length xs) mod rb_max_size s1"
      "rb_size s' = min (rb_size s1 + length xs) (rb_max_size s1)" "rb_k s' = rb_k s1"
      "rb_max_size s' = rb_max_size s1" by blast
  have top: "rb_top s' = (rb_top s + length (x # xs)) mod rb_max_size s"
    unfolding s'(3) s1(3) s1(6) by (simp add: mod_add_left_eq add.assoc)
  have size: "rb_size s' = min (rb_size s + length (x # xs)) (rb_max_size s)"
    unfolding s'(4) s1(4) s1(6) by simp
  show ?case using s1(1) s'(1,2,5,6) s1(5,6) top size by simp
qed

lemma item_entry_ok:
  "i < length dicts \<Longrightarrow> (dicts ! i) key \<noteq> None \<Longrightarrow> item_entry dicts i key = Inr (step_entry dicts i key)"
  by (auto simp: item_entry_def item_def entry_def step_entry_def)

lemma ns_add_step_eq:
  assumes "path_readable compute_reward p L" "i < L"
  shows "ns_add_step p i s = ns_insert s (original p i)"
proof -
  have l: "i < length (sp_observations p)" "i < length (sp_actions p)" "i < length (sp_rewards p)"
    "i < length (sp_next_observations p)" "i < length (sp_terminals p)"
    using assms by (simp_all add: path_readable_def)
  have k: "(sp_observations p ! i) ''observation'' \<noteq> None" "(sp_observations p ! i) ''desired_goal'' \<noteq> None"
    "(sp_next_observations p ! i) ''observation'' \<noteq> None"
    "(sp_next_observations p ! i) ''desired_goal'' \<noteq> None"
    using assms by (simp_all add: path_readable_def)
  show ?thesis
    using l by (simp add: ns_add_step_def item_entry_ok[OF l(1)] item_entry_ok[OF l(4)] k
        concatenate_def item_def ns_insert_def original_def)
qed

lemma ns_relabel_eq:
  assumes "path_readable compute_reward p L" "i < L" "\<forall>c\<in>set sel. i < c \<and> c < L"
  shows "ns_relabel compute_reward p i sel s = ns_insert_all s (map (relabeled compute_reward p i) sel)"
  using assms(3)
proof (induction sel arbitrary: s)
  case Nil
  then show ?case by simp
next
  case (Cons c sel)
  have c: "i < c" "c < L" using Cons.prems by simp_all
  have l: "i < length (sp_observations p)" "i < length (sp_actions p)"
    "i < length (sp_next_observations p)" "i < length (sp_terminals p)"
    "c < length (sp_next_observations p)"
    using assms(1,2) c by (simp_all add: path_readable_def)
  have k: "(sp_observations p ! i) ''observation'' \<noteq> None"
    "(sp_next_observations p ! i) ''observation'' \<noteq> None"
    "(sp_next_observations p ! i) ''achieved_goal'' \<noteq> None"
    "(sp_next_observations p ! c) ''achieved_goal'' \<noteq> None"
    using assms(1,2) c by (simp_all add: path_readable_def)
  have "\<not> isl (compute_reward (step_entry (sp_next_observations p) i ''achieved_goal'')
                   (step_entry (sp_next_observations p) c ''achieved_goal''))"
    using assms(1,2) c unfolding path_readable_def by blast
  then obtain rew where rew: "compute_reward (step_entry (sp_next_observations p) i ''achieved_goal'')
                   (step_entry (sp_next_observations p) c ''achieved_goal'') = Inr rew"
    by (cases "compute_reward (step_entry (sp_next_observations p) i ''achieved_goal'')
                   (step_entry (sp_next_observations p) c ''achieved_goal'')") auto
  have ih: "ns_relabel compute_reward p i sel s1 = ns_insert_all s1 (map (relabeled compute_reward p i) sel)"
    for s1 using Cons.IH Cons.prems by simp
  have rc: "ns_insert s (relabeled compute_reward p i c) =
      ns_add_sample s
        (step_entry (sp_observations p) i ''observation'' @ step_entry (sp_next_observations p) c ''achieved_goal'')
        (sp_actions p ! i) [rew] (sp_terminals p ! i)
        (step_entry (sp_next_observations p) i ''observation'' @ step_entry (sp_next_observations p) c ''achieved_goal'')"
    by (simp add: ns_insert_def relabeled_def rew)
  show ?case
    using l(2,4) rew
    by (simp add: item_entry_ok[OF l(1)] item_entry_ok[OF l(3)] item_entry_ok[OF l(5)] k
        concatenate_def item_def rc ih split: sum.splits)
qed

lemma chosen_later:
  assumes "i + 1 < L" "c \<in> set (chosen g L k i)"
  shows "i < c \<and> c < L"
proof -
  from assms(2) obtain j where c: "c = i + 1 + g (i * k + j) mod (L - (i + 1))"
    by (auto simp: chosen_def)
  have "g (i * k + j) mod (L - (i + 1)) < L - (i + 1)" using assms(1) by simp
  then show ?thesis using c assms(1) by arith
qed

lemma length_chosen [simp]: "length (chosen g L k i) = k"
  by (simp add: chosen_def)

lemma random_choice_chosen:
  "i + 1 < L \<Longrightarrow>
   random_choice (\<lambda>n. g (n + i * k)) (Suc i) L k = Inr (chosen g L k i, \<lambda>n. g (n + Suc i * k))"
  by (simp add: random_choice_def chosen_def add.commute add.left_commute add.assoc)

lemma ns_insert_keeps: "ns_insert s x = Inr s' \<Longrightarrow> rb_k s' = rb_k s"
  by (cases x) (auto simp: ns_insert_def dest: ns_add_sample_keeps)

lemma ns_insert_all_keeps: "ns_insert_all s xs = Inr s' \<Longrightarrow> rb_k s' = rb_k s"
proof (induction xs arbitrary: s)
  case Nil
  then show ?case by simp
next
  case (Cons x xs)
  then obtain s1 where s1: "ns_insert s x = Inr s1" "ns_insert_all s1 xs = Inr s'"
    by (auto split: sum.splits)
  then show ?case using Cons.IH[OF s1(2)] ns_insert_keeps[OF s1(1)] by simp
qed

lemma ns_add_steps_eq:
  assumes r: "path_readable compute_reward p L"
  shows "m < L \<Longrightarrow> d = L - 1 - m \<Longrightarrow> k = rb_k s \<Longrightarrow>
    ns_add_steps compute_reward p L [m..<L] (s, \<lambda>n. g (n + m * k)) =
      (case ns_insert_all s (concat (map (step_samples compute_reward p g L k) [m..<L])) of
         Inl e \<Rightarrow> Inl e
       | Inr s' \<Rightarrow> Inr (s', \<lambda>n. g (n + (L - 1) * k)))"
proof (induction d arbitrary: m s)
  case 0
  then have m: "m = L - 1" "[m..<L] = [m]" by (simp_all add: upt_rec)
  show ?case
    unfolding m(2)
    using m(1) ns_add_step_eq[OF r 0(1), of s]
    by (simp add: step_samples_def split: sum.splits)
next
  case (Suc d)
  then have m: "m + 1 < L" "m \<noteq> L - 1" "[m..<L] = m # [Suc m..<L]" by (simp_all add: upt_rec)
  have later: "\<forall>c\<in>set (chosen g L k m). m < c \<and> c < L" using chosen_later[OF m(1)] by blast
  have ss: "step_samples compute_reward p g L k m =
      original p m # map (relabeled compute_reward p m) (chosen g L k m)"
    using m(2) by (simp add: step_samples_def)
  show ?case
  proof (cases "ns_insert s (original p m)")
    case (Inl e)
    then show ?thesis
      unfolding m(3) using ns_add_step_eq[OF r Suc.prems(1), of s]
      by (simp add: ss)
  next
    case (Inr s1)
    have k1: "rb_k s1 = k" using ns_insert_keeps[OF Inr] Suc.prems(3) by simp
    have rel: "ns_relabel compute_reward p m (chosen g L k m) s1 =
        ns_insert_all s1 (map (relabeled compute_reward p m) (chosen g L k m))"
      by (rule ns_relabel_eq[OF r Suc.prems(1) later])
    show ?thesis
    proof (cases "ns_insert_all s1 (map (relabeled compute_reward p m) (chosen g L k m))")
      case (Inl e)
      then show ?thesis
        unfolding m(3) using ns_add_step_eq[OF r Suc.prems(1), of s] Inr m(2) rel
        by (simp add: ss k1 random_choice_chosen[OF m(1)] ns_insert_all_append)
    next
      case s2: (Inr s2)
      have k2: "k = rb_k s2"
        using ns_insert_all_keeps[OF s2] k1 by simp
      have ih: "ns_add_steps compute_reward p L [Suc m..<L] (s2, \<lambda>n. g (n + Suc m * k)) =
          (case ns_insert_all s2 (concat (map (step_samples compute_reward p g L k) [Suc m..<L])) of
             Inl e \<Rightarrow> Inl e
           | Inr s' \<Rightarrow> Inr (s', \<lambda>n. g (n + (L - 1) * k)))"
        by (rule Suc.IH) (use Suc.prems k2 in simp_all)
      show ?thesis
        unfolding m(3) using ns_add_step_eq[OF r Suc.prems(1), of s] Inr m(2) rel s2 ih
        by (simp add: ss k1 random_choice_chosen[OF m(1)] ns_insert_all_append)
    qed
  qed
qed

lemma length_step_samples:
  "length (step_samples compute_reward p g L k i) = (if i = L - 1 then 1 else k + 1)"
  by (simp add: step_samples_def)

lemma length_expected_samples:
  assumes "1 \<le> L"
  shows "length (expected_samples compute_reward p g L k) = L + k * (L - 1)"
proof -
  have u: "[0..<L] = [0..<L - 1] @ [L - 1]"
    using assms by (metis Suc_diff_1 less_eq_Suc_le upt_Suc_append zero_le One_nat_def)
  have "map (\<lambda>i. length (step_samples compute_reward p g L k i)) [0..<L - 1]
      = map (\<lambda>i. k + 1) [0..<L - 1]"
    by (rule map_cong) (simp_all add: length_step_samples)
  then have "sum_list (map (\<lambda>i. length (step_samples compute_reward p g L k i)) [0..<L - 1])
      = sum_list (map (\<lambda>i. k + 1) [0..<L - 1])"
    by (simp only:)
  also have "\<dots> = (L - 1) * (k + 1)" by (simp add: sum_list_triv)
  finally have "sum_list (map (\<lambda>i. length (step_samples compute_reward p g L k i)) [0..<L - 1])
      = (L - 1) * (k + 1)" .
  then have "length (expected_samples compute_reward p g L k) = (L - 1) * (k + 1) + 1"
    unfolding expected_samples_def length_concat
    by (subst u) (simp add: comp_def length_step_samples)
  also have "\<dots> = L + k * (L - 1)"
  proof -
    obtain n where "L = Suc n" using assms by (cases L) auto
    then show ?thesis by simp
  qed
  finally show ?thesis .
qed

lemma ns_add_path_eq:
  assumes r: "path_readable compute_reward p L"
  shows "ns_add_path compute_reward s p g =
     (case ns_insert_all s (expected_samples compute_reward p g L (rb_k s)) of
        Inl e \<Rightarrow> Inl e
      | Inr s' \<Rightarrow> Inr (s', \<lambda>n. g (n + (L - 1) * rb_k s)))"
proof -
  have L: "length (sp_rewards p) = L" "0 < L" using r by (simp_all add: path_readable_def)
  have "ns_add_steps compute_reward p L [0..<L] (s, \<lambda>n. g (n + 0 * rb_k s)) =
      (case ns_insert_all s (concat (map (step_samples compute_reward p g L (rb_k s)) [0..<L])) of
         Inl e \<Rightarrow> Inl e
       | Inr s' \<Rightarrow> Inr (s', \<lambda>n. g (n + (L - 1) * rb_k s)))"
    by (rule ns_add_steps_eq[OF r L(2)]) simp_all
  then show ?thesis by (simp add: ns_add_path_def L expected_samples_def)
qed

text \<open>
  Claim C6. For a readable path of \<open>L\<close> steps, \<open>1 \<le> L\<close>, and \<open>k = self.k\<close>,
  \<^verbatim>\<open>add_path\<close> of the \<^verbatim>\<open>newstate\<close> class does what adding the expected samples one
  after the other does, raising where that raises. The expected samples are
  \<open>L + k * (L - 1)\<close>: for every step its own sample, followed, except for the last
  step, by \<open>k\<close> relabeled samples. The steps chosen for step \<open>i\<close> are \<open>k\<close>
  indices \<open>c\<close> with \<open>i < c < L\<close>. The relabeled sample of step \<open>i\<close> for \<open>c\<close>
  has the achieved goal of (the next observation of) step \<open>c\<close> after the observation
  and after the next observation of step \<open>i\<close>, and the reward \<^verbatim>\<open>compute_reward\<close>
  returns for the achieved goal of step \<open>i\<close> and that goal. When the rows of the buffer
  have the widths of the samples, \<^verbatim>\<open>add_path\<close> returns, and pointer and size have moved by
  \<open>L + k * (L - 1)\<close> insertions.
\<close>

theorem ns_add_path_relabels:
  assumes r: "path_readable compute_reward p L" and k: "k = rb_k s"
  shows "ns_add_path compute_reward s p g =
       (case ns_insert_all s (expected_samples compute_reward p g L k) of
          Inl e \<Rightarrow> Inl e
        | Inr s' \<Rightarrow> Inr (s', \<lambda>n. g (n + (L - 1) * k))) \<and>
     length (expected_samples compute_reward p g L k) = L + k * (L - 1) \<and>
     expected_samples compute_reward p g L k =
       concat (map (\<lambda>i. original p i #
                       (if i = L - 1 then [] else map (relabeled compute_reward p i) (chosen g L k i)))
                [0..<L]) \<and>
     (\<forall>i. i + 1 < L \<longrightarrow>
        length (chosen g L k i) = k \<and> (\<forall>c\<in>set (chosen g L k i). i < c \<and> c < L)) \<and>
     (\<forall>i c. i < c \<and> c < L \<longrightarrow>
        (\<exists>rew. compute_reward (step_entry (sp_next_observations p) i ''achieved_goal'')
                 (step_entry (sp_next_observations p) c ''achieved_goal'') = Inr rew \<and>
               relabeled compute_reward p i c =
                 (step_entry (sp_observations p) i ''observation''
                    @ step_entry (sp_next_observations p) c ''achieved_goal'',
                  sp_actions p ! i, [rew], sp_terminals p ! i,
                  step_entry (sp_next_observations p) i ''observation''
                    @ step_entry (sp_next_observations p) c ''achieved_goal''))) \<and>
     (rb_rows s wa wo \<and> list_all (sample_fits wa wo) (expected_samples compute_reward p g L k) \<longrightarrow>
        (\<exists>s'. ns_add_path compute_reward s p g = Inr (s', \<lambda>n. g (n + (L - 1) * k)) \<and>
              ns_insert_all s (expected_samples compute_reward p g L k) = Inr s' \<and>
              rb_top s' = (rb_top s + (L + k * (L - 1))) mod rb_max_size s \<and>
              rb_size s' = min (rb_size s + (L + k * (L - 1))) (rb_max_size s)))"
proof (intro conjI allI impI)
  let ?xs = "expected_samples compute_reward p g L k"
  have L: "1 \<le> L" using r by (simp add: path_readable_def)
  show eq: "ns_add_path compute_reward s p g =
       (case ns_insert_all s ?xs of Inl e \<Rightarrow> Inl e | Inr s' \<Rightarrow> Inr (s', \<lambda>n. g (n + (L - 1) * k)))"
    unfolding k by (rule ns_add_path_eq[OF r])
  show len: "length ?xs = L + k * (L - 1)" by (rule length_expected_samples[OF L])
  show "?xs = concat (map (\<lambda>i. original p i #
                       (if i = L - 1 then [] else map (relabeled compute_reward p i) (chosen g L k i)))
                [0..<L])"
    by (simp add: expected_samples_def step_samples_def[abs_def])
  {
    fix i assume "i + 1 < L"
    then show "length (chosen g L k i) = k" by simp
  next
    fix i assume "i + 1 < L"
    then show "\<forall>c\<in>set (chosen g L k i). i < c \<and> c < L" using chosen_later by blast
  next
    fix i c assume ic: "i < c \<and> c < L"
    then have "\<not> isl (compute_reward (step_entry (sp_next_observations p) i ''achieved_goal'')
                 (step_entry (sp_next_observations p) c ''achieved_goal''))"
      using r unfolding path_readable_def by (meson less_trans)
    then obtain rew where rew: "compute_reward (step_entry (sp_next_observations p) i ''achieved_goal'')
                 (step_entry (sp_next_observations p) c ''achieved_goal'') = Inr rew"
      by (cases "compute_reward (step_entry (sp_next_observations p) i ''achieved_goal'')
                 (step_entry (sp_next_observations p) c ''achieved_goal'')") auto
    then show "\<exists>rew. compute_reward (step_entry (sp_next_observations p) i ''achieved_goal'')
                 (step_entry (sp_next_observations p) c ''achieved_goal'') = Inr rew \<and>
               relabeled compute_reward p i c =
                 (step_entry (sp_observations p) i ''observation''
                    @ step_entry (sp_next_observations p) c ''achieved_goal'',
                  sp_actions p ! i, [rew], sp_terminals p ! i,
                  step_entry (sp_next_observations p) i ''observation''
                    @ step_entry (sp_next_observations p) c ''achieved_goal'')"
      by (simp add: relabeled_def)
  next
    assume f: "rb_rows s wa wo \<and> list_all (sample_fits wa wo) ?xs"
    from ns_insert_all_fits[of s wa wo ?xs] f obtain s' where
      s': "ns_insert_all s ?xs = Inr s'" "rb_top s' = (rb_top s + length ?xs) mod rb_max_size s"
        "rb_size s' = min (rb_size s + length ?xs) (rb_max_size s)" by blast
    show "\<exists>s'. ns_add_path compute_reward s p g = Inr (s', \<lambda>n. g (n + (L - 1) * k)) \<and>
              ns_insert_all s ?xs = Inr s' \<and>
              rb_top s' = (rb_top s + (L + k * (L - 1))) mod rb_max_size s \<and>
              rb_size s' = min (rb_size s + (L + k * (L - 1))) (rb_max_size s)"
      using eq s' unfolding len by simp
  }
qed

text \<open>
  A buffer of four rows with \<open>k = 1\<close> and a path of three steps whose achieved goal
  is its observation; the reward is 0 when the achieved goal is the goal and -1 otherwise.
  Every random number is 3, so that the goal of step 2 is drawn for the steps 0 and 1.
\<close>

definition ex_ns :: relabel_buffer where
  "ex_ns =
     \<lparr>rb_max_size = 4, rb_k = 1, rb_t_fn = None, rb_discrete = False, rb_action_dim = 1,
      rb_fraction_goals_rollout_goals = 1, rb_fraction_goals_env_goals = 0,
      rb_ob_keys_to_save = [''observation'', ''desired_goal'', ''achieved_goal'', ''save_state''],
      rb_internal_keys = [], rb_goal_keys = [''desired_goal''],
      rb_observation_key = ''observation'', rb_desired_goal_key = ''desired_goal'',
      rb_achieved_goal_key = ''achieved_goal'',
      rb_actions = [[0], [0], [0], [0]], rb_terminals = [[0], [0], [0], [0]],
      rb_rewards = [[0], [0], [0], [0]],
      rb_obs = [[0, 0], [0, 0], [0, 0], [0, 0]], rb_next_obs = [[0, 0], [0, 0], [0, 0], [0, 0]],
      rb_top = 0, rb_size = 0, rb_idx_to_future_obs_idx = replicate 4 None\<rparr>"

definition ex_obs :: "real \<Rightarrow> string \<rightharpoonup> vec" where
  "ex_obs x = [''observation'' \<mapsto> [x], ''desired_goal'' \<mapsto> [9], ''achieved_goal'' \<mapsto> [x]]"

definition ex_steps :: step_path where
  "ex_steps =
     \<lparr>sp_observations = [ex_obs 1, ex_obs 2, ex_obs 3],
      sp_actions = [[5], [6], [7]],
      sp_rewards = [[- 1], [- 1], [- 1]],
      sp_next_observations = [ex_obs 2, ex_obs 3, ex_obs 4],
      sp_terminals = [[0], [0], [1]]\<rparr>"

definition ex_reward :: "vec \<Rightarrow> vec \<Rightarrow> py_error + real" where
  "ex_reward achieved desired = Inr (if achieved = desired then 0 else - 1)"

lemma ex_steps_readable: "path_readable ex_reward ex_steps 3"
  by (simp add: path_readable_def ex_steps_def ex_obs_def ex_reward_def All_less_Suc numeral_3_eq_3)

lemma ex_ns_rows: "rb_rows ex_ns 1 2"
  by (simp add: rb_rows_def rb_shaped_def ex_ns_def)

definition ex_rng :: rng where
  "ex_rng n = 3"

lemma ex_step_samples:
  "step_samples ex_reward ex_steps ex_rng 3 (Suc 0) 0 =
     [([1, 9], [5], [- 1], [0], [2, 9]), ([1, 4], [5], [- 1], [0], [2, 4])]"
  "step_samples ex_reward ex_steps ex_rng 3 (Suc 0) (Suc 0) =
     [([2, 9], [6], [- 1], [0], [3, 9]), ([2, 4], [6], [- 1], [0], [3, 4])]"
  "step_samples ex_reward ex_steps ex_rng 3 (Suc 0) 2 = [([3, 9], [7], [- 1], [1], [4, 9])]"
  by (simp_all add: step_samples_def chosen_def ex_rng_def original_def relabeled_def step_entry_def
      ex_steps_def ex_obs_def ex_reward_def)

lemma ex_expected:
  "expected_samples ex_reward ex_steps ex_rng 3 1 =
     [([1, 9], [5], [- 1], [0], [2, 9]),
      ([1, 4], [5], [- 1], [0], [2, 4]),
      ([2, 9], [6], [- 1], [0], [3, 9]),
      ([2, 4], [6], [- 1], [0], [3, 4]),
      ([3, 9], [7], [- 1], [1], [4, 9])]"
proof -
  have u: "[0..<3] = [0, Suc 0, 2]" by (simp add: upt_rec numeral_3_eq_3 numeral_2_eq_2)
  show ?thesis
    unfolding expected_samples_def u One_nat_def by (simp add: ex_step_samples)
qed

lemma ex_ns_inserted:
  "ns_insert_all ex_ns
     [([1, 9], [5], [- 1], [0], [2, 9]),
      ([1, 4], [5], [- 1], [0], [2, 4]),
      ([2, 9], [6], [- 1], [0], [3, 9]),
      ([2, 4], [6], [- 1], [0], [3, 4]),
      ([3, 9], [7], [- 1], [1], [4, 9])] =
   Inr (ex_ns\<lparr>rb_actions := [[7], [5], [6], [6]], rb_terminals := [[1], [0], [0], [0]],
              rb_rewards := [[- 1], [- 1], [- 1], [- 1]],
              rb_obs := [[3, 9], [1, 4], [2, 9], [2, 4]],
              rb_next_obs := [[4, 9], [2, 4], [3, 9], [3, 4]],
              rb_top := 1, rb_size := 4\<rparr>)"
  by (simp add: ns_insert_def ns_add_sample_def store_row_def advance_def ex_ns_def)

text \<open>
  The path of three steps gives five samples. The fifth goes to row 0 of the four rows,
  over the first.
\<close>

theorem ns_add_path_relabels_witness:
  "path_readable ex_reward ex_steps 3 \<and> rb_rows ex_ns 1 2 \<and>
   list_all (sample_fits 1 2) (expected_samples ex_reward ex_steps ex_rng 3 1) \<and>
   length (expected_samples ex_reward ex_steps ex_rng 3 1) = 5 \<and>
   (\<exists>s' g'. ns_add_path ex_reward ex_ns ex_steps ex_rng = Inr (s', g') \<and>
      rb_top s' = 1 \<and> rb_size s' = 4 \<and>
      rb_obs s' = [[3, 9], [1, 4], [2, 9], [2, 4]] \<and>
      rb_rewards s' = [[- 1], [- 1], [- 1], [- 1]])"
proof -
  have k: "1 = rb_k ex_ns" by (simp add: ex_ns_def)
  have f: "list_all (sample_fits 1 2) (expected_samples ex_reward ex_steps ex_rng 3 1)"
    unfolding ex_expected by (simp add: sample_fits_def fits_def)
  note t = ns_add_path_relabels[OF ex_steps_readable k, of ex_rng 1 2]
  have "length (expected_samples ex_reward ex_steps ex_rng 3 1) = 3 + 1 * (3 - 1)"
    by (rule t[THEN conjunct2, THEN conjunct1])
  then have len: "length (expected_samples ex_reward ex_steps ex_rng 3 1) = 5" by simp
  have "rb_rows ex_ns 1 2 \<and> list_all (sample_fits 1 2) (expected_samples ex_reward ex_steps ex_rng 3 1)"
    using ex_ns_rows f by blast
  from t[THEN conjunct2, THEN conjunct2, THEN conjunct2, THEN conjunct2, THEN conjunct2, rule_format, OF this]
  obtain s' where
    s': "ns_add_path ex_reward ex_ns ex_steps ex_rng = Inr (s', \<lambda>n. ex_rng (n + (3 - 1) * 1))"
      "ns_insert_all ex_ns (expected_samples ex_reward ex_steps ex_rng 3 1) = Inr s'"
      "rb_top s' = (rb_top ex_ns + (3 + 1 * (3 - 1))) mod rb_max_size ex_ns"
      "rb_size s' = min (rb_size ex_ns + (3 + 1 * (3 - 1))) (rb_max_size ex_ns)"
    by blast
  have top: "rb_top s' = 1" "rb_size s' = 4" using s'(3,4) by (simp_all add: ex_ns_def)
  have arr: "rb_obs s' = [[3, 9], [1, 4], [2, 9], [2, 4]]" "rb_rewards s' = [[- 1], [- 1], [- 1], [- 1]]"
    using s'(2) unfolding ex_expected ex_ns_inserted by auto
  show ?thesis
    using ex_steps_readable ex_ns_rows f len s'(1) top arr by blast
qed

end
